theory Spec2Isabelle
  imports Complex_Main "HOL-Library.Char_ord" "HOL-Library.List_Lexorder"
    "HOL-Library.Product_Lexorder" "HOL-Library.Multiset"
begin

section \<open>The rsID to GRCh38 mapper (map\_rsid\_to\_grch38\_coord\_ensembl\_api.py)\<close>

subsection \<open>Python strings\<close>

text \<open>
  A Python \<open>str\<close> is modelled as a \<^typ>\<open>string\<close>, one \<^typ>\<open>char\<close> per code point
  below 256. Comparison of strings is lexicographic on code points with a proper prefix
  smaller, which is the order of \<open>List_Lexorder\<close> over \<open>Char_ord\<close>; tuples compare
  lexicographically, which is the order of \<open>Product_Lexorder\<close>.
\<close>

definition tab :: char where
  "tab = CHR 0x09"

definition newline :: char where
  "newline = CHR 0x0A"

text \<open>\<open>str.isspace\<close> on the code points below 256.\<close>

definition isspace :: "char \<Rightarrow> bool" where
  "isspace c \<longleftrightarrow> c \<in> set [CHR 0x09, CHR 0x0A, CHR 0x0B, CHR 0x0C, CHR 0x0D,
                          CHR 0x1C, CHR 0x1D, CHR 0x1E, CHR 0x1F, CHR 0x20, CHR 0x85, CHR 0xA0]"

text \<open>\<open>s.strip()\<close>: leading and trailing whitespace removed.\<close>

definition strip :: "string \<Rightarrow> string" where
  "strip s = rev (dropWhile isspace (rev (dropWhile isspace s)))"

text \<open>\<open>s.startswith(p)\<close>.\<close>

definition startswith :: "string \<Rightarrow> string \<Rightarrow> bool" where
  "startswith s p \<longleftrightarrow> take (length p) s = p"

text \<open>
  \<open>s.lower()\<close>. Only the ASCII capitals matter to the one use of it, a test of the
  prefix \<open>chr\<close>: no other code point lowers to \<open>c\<close>, \<open>h\<close> or \<open>r\<close>.
\<close>

definition lower_char :: "char \<Rightarrow> char" where
  "lower_char c =
     (case map_of (zip ''ABCDEFGHIJKLMNOPQRSTUVWXYZ'' ''abcdefghijklmnopqrstuvwxyz'') c of
        Some l \<Rightarrow> l
      | None \<Rightarrow> c)"

definition lower :: "string \<Rightarrow> string" where
  "lower s = map lower_char s"

text \<open>\<open>s.split(sep)\<close> for a separator of one character: never an empty list.\<close>

primrec split :: "char \<Rightarrow> string \<Rightarrow> string list" where
  "split sep [] = [[]]"
| "split sep (c # cs) =
     (if c = sep then [] # split sep cs
      else (c # hd (split sep cs)) # tl (split sep cs))"

text \<open>\<open>sep.join(xs)\<close>.\<close>

fun join :: "string \<Rightarrow> string list \<Rightarrow> string" where
  "join sep [] = []"
| "join sep [x] = x"
| "join sep (x # y # ys) = x @ sep @ join sep (y # ys)"

text \<open>\<open>str(n)\<close> of an integer, as an f-string renders it: decimal, a minus sign if negative.\<close>

definition digit_char :: "nat \<Rightarrow> char" where
  "digit_char d = ''0123456789'' ! d"

fun str_nat :: "nat \<Rightarrow> string" where
  "str_nat n = (if n < 10 then [digit_char n] else str_nat (n div 10) @ [digit_char (n mod 10)])"

declare str_nat.simps [simp del]

definition str_int :: "int \<Rightarrow> string" where
  "str_int i = (if i < 0 then CHR ''-'' # str_nat (nat (- i)) else str_nat (nat i))"

subsection \<open>Exceptions\<close>

datatype error =
    SystemExit string
  | ValueError
  | TypeError
  | OverflowError
  | RequestException
  | HTTPError int

subsection \<open>Python numbers\<close>

text \<open>
  A Python \<open>float\<close>: a finite value, held as a rational (rounding is not modelled), or one
  of \<open>inf\<close>, \<open>-inf\<close> and \<open>nan\<close>.
\<close>

datatype pyfloat =
    Finite rat
  | PlusInf
  | MinusInf
  | NaN

text \<open>
  A JSON value as \<open>json.loads\<close> gives it, as far as truthiness and \<open>int\<close> look at it:
  \<open>null\<close>, a boolean, an integer, a float, a string, or a list or object, of which only
  whether it is non-empty matters.
\<close>

datatype json =
    JNull
  | JBool bool
  | JInt int
  | JFloat pyfloat
  | JStr string
  | JContainer bool

text \<open>Truthiness, as \<open>not x\<close> tests it. A \<open>nan\<close> is true.\<close>

fun truthy :: "json \<Rightarrow> bool" where
  "truthy JNull = False"
| "truthy (JBool b) = b"
| "truthy (JInt n) = (n \<noteq> 0)"
| "truthy (JFloat (Finite r)) = (r \<noteq> 0)"
| "truthy (JFloat x) = True"
| "truthy (JStr s) = (s \<noteq> [])"
| "truthy (JContainer nonempty) = nonempty"

text \<open>
  \<open>int(s)\<close> of a string: whitespace around it is dropped, one sign may lead, and the rest
  is decimal digits, with single underscores allowed between two digits; anything else
  raises \<open>ValueError\<close>, and so does a text of more than 4300 digits (the default of
  \<open>sys.int_info.default_max_str_digits\<close> in CPython 3.11).
\<close>

definition digit_value :: "char \<Rightarrow> nat option" where
  "digit_value c = map_of (zip ''0123456789'' [0, 1, 2, 3, 4, 5, 6, 7, 8, 9]) c"

fun digits_body :: "string \<Rightarrow> bool" where
  "digits_body [] = False"
| "digits_body [c] = (digit_value c \<noteq> None)"
| "digits_body (c # d # cs) =
     (digit_value c \<noteq> None \<and>
      (if d = CHR ''_'' then digits_body cs else digits_body (d # cs)))"

fun digits_number :: "nat \<Rightarrow> string \<Rightarrow> nat" where
  "digits_number acc [] = acc"
| "digits_number acc (c # cs) =
     (case digit_value c of
        Some d \<Rightarrow> digits_number (10 * acc + d) cs
      | None \<Rightarrow> digits_number acc cs)"

definition max_str_digits :: nat where
  "max_str_digits = 4300"

definition int_of_str :: "string \<Rightarrow> error + int" where
  "int_of_str s =
     (let t = strip s;
          negative = (t \<noteq> [] \<and> hd t = CHR ''-'');
          body = (if t \<noteq> [] \<and> (hd t = CHR ''-'' \<or> hd t = CHR ''+'') then tl t else t)
      in if digits_body body
            \<and> length (filter (\<lambda>c. digit_value c \<noteq> None) body) \<le> max_str_digits
         then Inr (if negative then - int (digits_number 0 body) else int (digits_number 0 body))
         else Inl ValueError)"

text \<open>\<open>int(x)\<close> of a float cuts towards zero; \<open>inf\<close> and \<open>nan\<close> raise.\<close>

definition py_trunc :: "rat \<Rightarrow> int" where
  "py_trunc r = (if r < 0 then - \<lfloor>- r\<rfloor> else \<lfloor>r\<rfloor>)"

fun py_int :: "json \<Rightarrow> error + int" where
  "py_int JNull = Inl TypeError"
| "py_int (JBool b) = Inr (if b then 1 else 0)"
| "py_int (JInt n) = Inr n"
| "py_int (JFloat (Finite r)) = Inr (py_trunc r)"
| "py_int (JFloat NaN) = Inl ValueError"
| "py_int (JFloat x) = Inl OverflowError"
| "py_int (JStr s) = int_of_str s"
| "py_int (JContainer nonempty) = Inl TypeError"

subsection \<open>Identifier Normalizer: \<open>read_rsids\<close>\<close>

text \<open>
  The file is given as the list of its lines. The loop keeps the set \<open>seen\<close> and the
  list \<open>out\<close>, as the source does; \<open>rs_prefixed\<close> names the conditional assignment
  \<open>if not s.startswith("rs"): s = "rs" + s\<close> of the loop body.
\<close>

definition rs_prefixed :: "string \<Rightarrow> string" where
  "rs_prefixed s = (if \<not> startswith s ''rs'' then ''rs'' @ s else s)"

fun read_rsids_loop :: "string list \<Rightarrow> string set \<Rightarrow> string list \<Rightarrow> string list" where
  "read_rsids_loop [] seen out = out"
| "read_rsids_loop (line # f) seen out =
     (let s = strip line in
      if s = [] then read_rsids_loop f seen out
      else
        let s = rs_prefixed s in
        if s \<notin> seen then read_rsids_loop f (insert s seen) (out @ [s])
        else read_rsids_loop f seen out)"

definition read_rsids :: "string list \<Rightarrow> string list" where
  "read_rsids f = read_rsids_loop f {} []"

subsection \<open>Batcher: \<open>chunks\<close>\<close>

text \<open>
  \<open>range(0, len(seq), n)\<close> raises \<open>ValueError\<close> for a step of zero and is empty for a
  negative step; for a positive step the slices \<open>seq[i:i + n]\<close> follow one another.
\<close>

function slices :: "nat \<Rightarrow> 'a list \<Rightarrow> 'a list list" where
  "slices n seq = (if n = 0 \<or> seq = [] then [] else take n seq # slices n (drop n seq))"
  by pat_completeness auto
termination
  by (relation "measure (\<lambda>(n, seq). length seq)") auto

declare slices.simps [simp del]

definition chunks :: "'a list \<Rightarrow> int \<Rightarrow> error + 'a list list" where
  "chunks seq n =
     (if n = 0 then Inl ValueError
      else if n < 0 then Inr []
      else Inr (slices (nat n) seq))"

subsection \<open>Mapping Extractor: \<open>normalize_chr\<close> and \<open>parse_grch38_mappings\<close>\<close>

text \<open>The tuple \<open>("M", "MT", "MtDNA", "mt", "MTDNA")\<close> of \<open>normalize_chr\<close>.\<close>

definition mito_synonyms :: "string list" where
  "mito_synonyms = [''M'', ''MT'', ''MtDNA'', ''mt'', ''MTDNA'']"

definition normalize_chr :: "string \<Rightarrow> string" where
  "normalize_chr chrom =
     (let c = (if startswith (lower chrom) ''chr'' then drop 3 chrom else chrom)
      in if c \<in> set mito_synonyms then ''M'' else c)"

text \<open>The closed set of the data model: 1 to 22, X, Y and M.\<close>

definition canonical_chromosomes :: "string set" where
  "canonical_chromosomes = set (map str_nat [1..<23]) \<union> {''X'', ''Y'', ''M''}"

text \<open>
  One element of an entry's \<open>mappings\<close> list. \<open>start\<close>, which the source converts with
  \<open>int(pos)\<close>, is any JSON value, \<^const>\<open>JNull\<close> also standing for an absent key. The
  assembly name, the region name and the allele string are strings, \<^const>\<open>None\<close> being
  what \<open>m.get(key)\<close> returns for a key that is absent or \<open>null\<close>, so that \<open>str(chrom)\<close>
  leaves the region name as it is.
\<close>

record mapping =
  assembly_name :: "string option"
  seq_region_name :: "string option"
  start :: json
  allele_string :: "string option"

type_synonym coord = "string \<times> int \<times> string \<times> string"

text \<open>
  The body of the loop over \<open>mappings\<close>: the tuples one mapping appends to \<open>out\<close>, or
  the exception of \<open>int(pos)\<close>. \<open>not chrom or not pos or not allele_string\<close> is Python
  truthiness, tested before the conversion.
\<close>

definition mapping_tuples :: "mapping \<Rightarrow> error + coord list" where
  "mapping_tuples m =
     (if assembly_name m \<noteq> Some ''GRCh38'' then Inr []
      else
        (case (seq_region_name m, allele_string m) of
           (Some chrom, Some als) \<Rightarrow>
             if chrom = [] \<or> \<not> truthy (start m) \<or> als = [] then Inr []
             else
               (case py_int (start m) of
                  Inl e \<Rightarrow> Inl e
                | Inr pos \<Rightarrow>
                    let chrom = normalize_chr chrom;
                        alleles = split CHR ''/'' als;
                        ref = hd alleles;
                        alts = (if length alleles > 1 then tl alleles else [])
                    in if alts = [] then Inr [(chrom, pos, ref, ref)]
                       else Inr (map (\<lambda>alt. (chrom, pos, ref, alt)) alts))
         | _ \<Rightarrow> Inr []))"

text \<open>
  The value of the key \<open>mappings\<close> in an entry: the key is absent, or its value is one
  that \<open>for\<close> cannot iterate (\<open>null\<close>, a number or a boolean), or it is a list, whose
  members are JSON objects.
\<close>

datatype mappings_value =
    Absent
  | NotIterable
  | Listed "mapping list"

text \<open>
  A response entry, a JSON object: whether it has the key \<open>error\<close>, the value of the key
  \<open>mappings\<close>, and whether it has any other key. The empty object is the only entry that
  is false in \<open>not entry\<close>.
\<close>

record entry =
  error_key :: bool
  mappings_key :: mappings_value
  other_keys :: bool

definition entry_falsy :: "entry \<Rightarrow> bool" where
  "entry_falsy e \<longleftrightarrow> \<not> error_key e \<and> mappings_key e = Absent \<and> \<not> other_keys e"

text \<open>
  \<open>entry.get("mappings", [])\<close> as the \<open>for\<close> statement iterates it: the list, empty for
  an absent key, or the \<open>TypeError\<close> of a value that is not iterable.
\<close>

definition get_mappings :: "entry \<Rightarrow> error + mapping list" where
  "get_mappings e =
     (case mappings_key e of
        Absent \<Rightarrow> Inr []
      | NotIterable \<Rightarrow> Inl TypeError
      | Listed ms \<Rightarrow> Inr ms)"

text \<open>The loop over the mappings, with the list \<open>out\<close>; an exception leaves it.\<close>

fun collect :: "mapping list \<Rightarrow> coord list \<Rightarrow> error + coord list" where
  "collect [] out = Inr out"
| "collect (m # ms) out =
     (case mapping_tuples m of
        Inl e \<Rightarrow> Inl e
      | Inr ts \<Rightarrow> collect ms (out @ ts))"

text \<open>\<open>sorted(set(out))\<close>.\<close>

definition parse_grch38_mappings :: "entry \<Rightarrow> error + coord list" where
  "parse_grch38_mappings e =
     (case get_mappings e of
        Inl err \<Rightarrow> Inl err
      | Inr ms \<Rightarrow>
          (case collect ms [] of
             Inl err \<Rightarrow> Inl err
           | Inr out \<Rightarrow> Inr (sorted_list_of_set (set out))))"

subsection \<open>Resilient Query Client: \<open>backoff_sleep\<close> and \<open>post_variation_batch\<close>\<close>

text \<open>
  \<open>backoff_sleep\<close>. Seconds that are slept are rationals. \<open>max(0.25, x)\<close> returns \<open>x\<close>
  only if \<open>x > 0.25\<close>, which is false of \<open>nan\<close>. \<open>0.25 * (2 ** attempt)\<close> converts the
  integer power to a float, which raises \<open>OverflowError\<close> from \<open>2 ** 1024\<close> on.
  \<open>time.sleep\<close> of CPython raises \<open>OverflowError\<close> for a length that does not fit 64
  bits of nanoseconds (\<open>2 ** 63\<close> nanoseconds or more, or below minus that), and
  \<open>ValueError\<close> for another negative length and for \<open>nan\<close>. Where the interpreter sleeps
  until a deadline on the monotonic clock (CPython from 3.11 on, on Linux), the operating
  system refuses a deadline beyond the range of that clock, that is a length within the
  uptime of the machine of the bound; the clock is not part of the model, and the
  statements about the delays of a header keep them at half the bound at most.
\<close>

definition max_quarter :: "pyfloat \<Rightarrow> pyfloat" where
  "max_quarter x =
     (case x of
        Finite r \<Rightarrow> if 1 / 4 < r then Finite r else Finite (1 / 4)
      | PlusInf \<Rightarrow> PlusInf
      | MinusInf \<Rightarrow> Finite (1 / 4)
      | NaN \<Rightarrow> Finite (1 / 4))"

definition backoff_delay :: "nat \<Rightarrow> pyfloat option \<Rightarrow> error + pyfloat" where
  "backoff_delay attempt retry_after =
     (case retry_after of
        Some ra \<Rightarrow> Inr (max_quarter ra)
      | None \<Rightarrow>
          if 1024 \<le> attempt then Inl OverflowError
          else Inr (Finite (min 10 ((1 / 4) * 2 ^ attempt))))"

definition sleep_limit :: rat where
  "sleep_limit = 2 ^ 63 / 10 ^ 9"

definition time_sleep :: "pyfloat \<Rightarrow> error + rat" where
  "time_sleep delay =
     (case delay of
        Finite r \<Rightarrow>
          if r < - sleep_limit \<or> sleep_limit \<le> r then Inl OverflowError
          else if r < 0 then Inl ValueError
          else Inr r
      | NaN \<Rightarrow> Inl ValueError
      | PlusInf \<Rightarrow> Inl OverflowError
      | MinusInf \<Rightarrow> Inl OverflowError)"

text \<open>The seconds \<open>backoff_sleep\<close> has slept when it returns, or its exception.\<close>

definition backoff_sleep :: "nat \<Rightarrow> pyfloat option \<Rightarrow> error + rat" where
  "backoff_sleep attempt retry_after =
     (case backoff_delay attempt retry_after of
        Inl e \<Rightarrow> Inl e
      | Inr delay \<Rightarrow> time_sleep delay)"

text \<open>
  The \<open>Retry-After\<close> header of a response: absent, the empty text, a text that \<open>float\<close>
  cannot read (an HTTP date, say), or a text that \<open>float\<close> reads. \<open>retry_after_arg\<close> is
  the argument \<open>float(ra) if ra else None\<close> of the call of \<open>backoff_sleep\<close>.
\<close>

datatype header =
    NoHeader
  | EmptyHeader
  | Unreadable
  | Readable pyfloat

fun retry_after_arg :: "header \<Rightarrow> error + pyfloat option" where
  "retry_after_arg NoHeader = Inr None"
| "retry_after_arg EmptyHeader = Inr None"
| "retry_after_arg Unreadable = Inl ValueError"
| "retry_after_arg (Readable x) = Inr (Some x)"

text \<open>
  What one \<open>session.post\<close> can do: raise \<open>requests.RequestException\<close>, or give a
  response with a status code, a \<open>Retry-After\<close> header and a JSON body. The body is an
  object that maps identifiers to entries; an identifier whose value is \<open>null\<close> is one
  without entry, which \<open>data.get(rs_id)\<close> does not tell apart.
\<close>

datatype outcome =
    NetworkFailure
  | Response int header "string \<rightharpoonup> entry"

text \<open>
  \<open>resp.raise_for_status()\<close> of the \<open>requests\<close> library: it raises \<open>HTTPError\<close> for
  a status from 400 to 599 and returns otherwise.
\<close>

definition raise_for_status :: "int \<Rightarrow> error option" where
  "raise_for_status sc = (if 400 \<le> sc \<and> sc < 600 then Some (HTTPError sc) else None)"

text \<open>
  The effects of the program are a trace \<open>tr\<close> of the requests it posts and the sleeps it takes.
  The service is a script: the list of the outcomes of the posts to come. A call that
  wants to post when the script is used up is \<open>Starved\<close>: the loop has neither returned
  nor raised so far.
\<close>

datatype event =
    Post "string list"
  | Sleep rat

datatype 'a call =
    Returned 'a
  | Raised error
  | Starved

text \<open>
  The \<open>while True\<close> loop, with the local variable \<open>attempt\<close>. An exception of
  \<open>float(ra)\<close> or of \<open>backoff_sleep\<close> is caught nowhere and leaves the function.
\<close>

fun post_loop ::
  "string list \<Rightarrow> int \<Rightarrow> nat \<Rightarrow> outcome list \<Rightarrow> event list
    \<Rightarrow> (string \<rightharpoonup> entry) call \<times> outcome list \<times> event list" where
  "post_loop ids max_retries attempt [] tr = (Starved, [], tr)"
| "post_loop ids max_retries attempt (NetworkFailure # w) tr =
     (if int attempt \<ge> max_retries then (Raised RequestException, w, tr @ [Post ids])
      else
        (case backoff_sleep (attempt + 1) None of
           Inl e \<Rightarrow> (Raised e, w, tr @ [Post ids])
         | Inr slept \<Rightarrow>
             post_loop ids max_retries (attempt + 1) w (tr @ [Post ids, Sleep slept])))"
| "post_loop ids max_retries attempt (Response status_code ra body # w) tr =
     (if status_code = 200 then (Returned body, w, tr @ [Post ids])
      else if status_code \<in> set [429, 500, 502, 503, 504] then
        (case (if int attempt \<ge> max_retries then raise_for_status status_code else None) of
           Some e \<Rightarrow> (Raised e, w, tr @ [Post ids])
         | None \<Rightarrow>
             (case retry_after_arg ra of
                Inl e \<Rightarrow> (Raised e, w, tr @ [Post ids])
              | Inr arg \<Rightarrow>
                  (case backoff_sleep (attempt + 1) arg of
                     Inl e \<Rightarrow> (Raised e, w, tr @ [Post ids])
                   | Inr slept \<Rightarrow>
                       post_loop ids max_retries (attempt + 1) w
                         (tr @ [Post ids, Sleep slept]))))
      else
        (case raise_for_status status_code of
           Some e \<Rightarrow> (Raised e, w, tr @ [Post ids])
         | None \<Rightarrow> post_loop ids max_retries attempt w (tr @ [Post ids])))"

definition post_variation_batch ::
  "string list \<Rightarrow> int \<Rightarrow> outcome list \<Rightarrow> event list
    \<Rightarrow> (string \<rightharpoonup> entry) call \<times> outcome list \<times> event list" where
  "post_variation_batch ids max_retries w tr = post_loop ids max_retries 0 w tr"

text \<open>The default of the parameter \<open>max_retries\<close>, which \<open>main\<close> does not override.\<close>

definition default_max_retries :: int where
  "default_max_retries = 5"

subsection \<open>Result Aggregator and Output Writer: \<open>main\<close>\<close>

record run_state =
  found :: "string set"
  missing :: "string set"
  id_rows :: "string set"
  coord_rows :: "string set"
  range_rows :: "string set"
  ambig_rows :: "string set"

definition init_state :: run_state where
  "init_state = \<lparr>found = {}, missing = {}, id_rows = {}, coord_rows = {}, range_rows = {},
                  ambig_rows = {}\<rparr>"

text \<open>The f-strings of the loop body.\<close>

fun coord_row :: "string \<Rightarrow> coord \<Rightarrow> string" where
  "coord_row rs_id (chrom, pos, ref, alt) =
     rs_id @ [tab] @ chrom @ [tab] @ str_int pos @ [tab] @ ref @ [tab] @ alt"

fun id_row :: "coord \<Rightarrow> string" where
  "id_row (chrom, pos, ref, alt) = chrom @ '':'' @ str_int pos @ '':'' @ ref @ '':'' @ alt"

fun range_row :: "string \<Rightarrow> coord \<Rightarrow> string" where
  "range_row rs_id (chrom, pos, ref, alt) =
     chrom @ [tab] @ str_int pos @ [tab] @ str_int pos @ [tab] @ rs_id"

definition ambig_row :: "string \<Rightarrow> coord list \<Rightarrow> string" where
  "ambig_row rs_id mappings =
     rs_id @ [tab] @ str_int (int (length mappings)) @ [tab] @ join '';'' (map id_row mappings)"

text \<open>The body of \<open>for chrom, pos, ref, alt in mappings\<close>.\<close>

definition add_mapping :: "string \<Rightarrow> coord \<Rightarrow> run_state \<Rightarrow> run_state" where
  "add_mapping rs_id t st =
     st\<lparr>coord_rows := insert (coord_row rs_id t) (coord_rows st),
        id_rows := insert (id_row t) (id_rows st),
        range_rows := insert (range_row rs_id t) (range_rows st),
        found := insert rs_id (found st)\<rparr>"

text \<open>
  The body of \<open>for rs_id in batch_rsids\<close>, for the response body \<open>data\<close>: the new
  state, or the exception of \<open>parse_grch38_mappings\<close>.
\<close>

definition process_rsid ::
  "(string \<rightharpoonup> entry) \<Rightarrow> string \<Rightarrow> run_state \<Rightarrow> error + run_state" where
  "process_rsid data rs_id st =
     (case data rs_id of
        None \<Rightarrow> Inr (st\<lparr>missing := insert rs_id (missing st)\<rparr>)
      | Some entry \<Rightarrow>
          if entry_falsy entry \<or> error_key entry
          then Inr (st\<lparr>missing := insert rs_id (missing st)\<rparr>)
          else
            (case parse_grch38_mappings entry of
               Inl e \<Rightarrow> Inl e
             | Inr mappings \<Rightarrow>
                 if mappings = [] then Inr (st\<lparr>missing := insert rs_id (missing st)\<rparr>)
                 else
                   let st' = fold (add_mapping rs_id) mappings st in
                   if length mappings > 1
                   then Inr (st'\<lparr>ambig_rows := insert (ambig_row rs_id mappings) (ambig_rows st')\<rparr>)
                   else Inr st'))"

fun process_batch ::
  "(string \<rightharpoonup> entry) \<Rightarrow> string list \<Rightarrow> run_state \<Rightarrow> error + run_state" where
  "process_batch data [] st = Inr st"
| "process_batch data (rs_id # batch_rsids) st =
     (case process_rsid data rs_id st of
        Inl e \<Rightarrow> Inl e
      | Inr st' \<Rightarrow> process_batch data batch_rsids st')"

text \<open>
  The loop over the batches: one call of \<open>post_variation_batch\<close> with the default
  ceiling, the loop over the identifiers of the batch, and \<open>time.sleep(0.1)\<close>. An
  exception of the call or of the loop over the identifiers leaves the loop and the
  program.
\<close>

fun batch_loop ::
  "string list list \<Rightarrow> run_state \<Rightarrow> outcome list \<Rightarrow> event list
    \<Rightarrow> run_state call \<times> outcome list \<times> event list" where
  "batch_loop [] st w tr = (Returned st, w, tr)"
| "batch_loop (batch_rsids # bs) st w tr =
     (case post_variation_batch batch_rsids default_max_retries w tr of
        (Returned data, w', tr') \<Rightarrow>
          (case process_batch data batch_rsids st of
             Inl e \<Rightarrow> (Raised e, w', tr')
           | Inr st' \<Rightarrow> batch_loop bs st' w' (tr' @ [Sleep (1 / 10)]))
      | (Raised e, w', tr') \<Rightarrow> (Raised e, w', tr')
      | (Starved, w', tr') \<Rightarrow> (Starved, w', tr'))"

text \<open>\<open>missing.update(set(rsids) - found)\<close>.\<close>

definition finalize :: "string list \<Rightarrow> run_state \<Rightarrow> run_state" where
  "finalize rsids st = st\<lparr>missing := missing st \<union> (set rsids - found st)\<rparr>"

text \<open>
  \<open>for row in sorted(rows): f.write(row + "\n")\<close>: the lines written and the file. The
  constant text of \<open>README.txt\<close> and the two printed lines are left out.
\<close>

definition file_lines :: "string set \<Rightarrow> string list" where
  "file_lines rows = sorted_list_of_set rows"

definition write_rows :: "string set \<Rightarrow> string" where
  "write_rows rows = concat (map (\<lambda>row. row @ [newline]) (file_lines rows))"

record output_files =
  rsid_to_coord_tsv :: string
  ids_to_extract_txt :: string
  rsid_range :: string
  missing_rsids_txt :: string
  ambiguous_rsids_tsv :: string

definition write_files :: "run_state \<Rightarrow> output_files" where
  "write_files st =
     \<lparr>rsid_to_coord_tsv = write_rows (coord_rows st),
      ids_to_extract_txt = write_rows (id_rows st),
      rsid_range = write_rows (range_rows st),
      missing_rsids_txt = write_rows (missing st),
      ambiguous_rsids_tsv = write_rows (ambig_rows st)\<rparr>"

text \<open>
  \<open>main\<close>, for the lines of the input file, the value of \<open>--batch\<close> and the script of the
  service. \<open>chunks\<close> is a generator, so a batch size of zero raises at the head of the
  loop, before any request.
\<close>

definition main ::
  "string list \<Rightarrow> int \<Rightarrow> outcome list \<Rightarrow> (run_state \<times> output_files) call \<times> event list" where
  "main f batch w =
     (let rsids = read_rsids f in
      if rsids = [] then (Raised (SystemExit ''No rsIDs found in input.''), [])
      else
        (case chunks rsids batch of
           Inl e \<Rightarrow> (Raised e, [])
         | Inr bs \<Rightarrow>
             (case batch_loop bs init_state w [] of
                (Returned st, w', tr) \<Rightarrow>
                  (let st' = finalize rsids st in (Returned (st', write_files st'), tr))
              | (Raised e, w', tr) \<Rightarrow> (Raised e, tr)
              | (Starved, w', tr) \<Rightarrow> (Starved, tr))))"

subsection \<open>Vocabulary of the statements about the client\<close>

text \<open>
  The outcomes the source retries: the exception of the \<open>except\<close> clause and the
  statuses of the tuple \<open>(429, 500, 502, 503, 504)\<close>; and the exception a failing outcome
  raises when it is not retried.
\<close>

definition transient :: "outcome \<Rightarrow> bool" where
  "transient oc =
     (case oc of
        NetworkFailure \<Rightarrow> True
      | Response status_code ra body \<Rightarrow> status_code \<in> set [429, 500, 502, 503, 504])"

definition failure_error :: "outcome \<Rightarrow> error" where
  "failure_error oc =
     (case oc of
        NetworkFailure \<Rightarrow> RequestException
      | Response status_code ra body \<Rightarrow> HTTPError status_code)"

text \<open>
  The backoff policy in the words of the specification: \<open>max(0.25, N)\<close> seconds for a
  signal of \<open>N\<close> seconds, \<open>min(10.0, 0.25 * 2^attempt)\<close> seconds without one.
\<close>

definition backoff_policy_seconds :: "nat \<Rightarrow> rat option \<Rightarrow> rat" where
  "backoff_policy_seconds attempt signal =
     (case signal of
        Some N \<Rightarrow> max (1 / 4) N
      | None \<Rightarrow> min 10 ((1 / 4) * 2 ^ attempt))"

text \<open>
  The signal of a failing outcome: the \<open>N\<close> of a \<open>Retry-After\<close> that is a finite number of
  seconds. An outcome is orderly when its \<open>Retry-After\<close> is absent, empty, or a finite
  number of seconds whose sleep is at most half of the bound of \<open>time.sleep\<close>.
\<close>

fun header_seconds :: "header \<Rightarrow> rat option" where
  "header_seconds (Readable (Finite N)) = Some N"
| "header_seconds ra = None"

fun header_orderly :: "header \<Rightarrow> bool" where
  "header_orderly NoHeader = True"
| "header_orderly EmptyHeader = True"
| "header_orderly (Readable (Finite N)) = (max (1 / 4) N \<le> sleep_limit / 2)"
| "header_orderly ra = False"

definition signal :: "outcome \<Rightarrow> rat option" where
  "signal oc = (case oc of NetworkFailure \<Rightarrow> None | Response status_code ra body \<Rightarrow> header_seconds ra)"

definition orderly :: "outcome \<Rightarrow> bool" where
  "orderly oc = (case oc of NetworkFailure \<Rightarrow> True | Response status_code ra body \<Rightarrow> header_orderly ra)"

text \<open>
  The trace of a run of retried failures, the first of them met with the counter at
  \<open>attempt\<close>, each followed by the sleep of the policy.
\<close>

fun retries :: "string list \<Rightarrow> nat \<Rightarrow> outcome list \<Rightarrow> event list" where
  "retries ids attempt [] = []"
| "retries ids attempt (oc # fs) =
     Post ids # Sleep (backoff_policy_seconds (attempt + 1) (signal oc))
       # retries ids (attempt + 1) fs"

subsection \<open>Vocabulary of the statements about the aggregator\<close>

text \<open>
  The MappingResult of an identifier in a response body: what the loop body of \<open>main\<close>
  tests before it adds the identifier to \<open>missing\<close> (no entry, an empty entry, an entry
  with the key \<open>error\<close>, or no tuple from \<open>parse_grch38_mappings\<close>) or to \<open>found\<close>.
\<close>

definition mapping_result :: "(string \<rightharpoonup> entry) \<Rightarrow> string \<Rightarrow> error + coord list" where
  "mapping_result data rs_id =
     (case data rs_id of
        None \<Rightarrow> Inr []
      | Some entry \<Rightarrow>
          if entry_falsy entry \<or> error_key entry then Inr [] else parse_grch38_mappings entry)"

text \<open>The sets the writer sorts are finite.\<close>

definition finite_rows :: "run_state \<Rightarrow> bool" where
  "finite_rows st \<longleftrightarrow>
     finite (missing st) \<and> finite (id_rows st) \<and> finite (coord_rows st)
     \<and> finite (range_rows st) \<and> finite (ambig_rows st)"

text \<open>
  The same responses in another order: an entry with its mappings permuted, a body with
  such entries under the same identifiers (the members of a JSON object have no order
  in a map), an outcome with such a body, a script of such outcomes.
\<close>

fun mappings_reordered :: "mappings_value \<Rightarrow> mappings_value \<Rightarrow> bool" where
  "mappings_reordered (Listed ms) (Listed ms') = (mset ms' = mset ms)"
| "mappings_reordered v v' = (v' = v)"

definition entry_reordered :: "entry \<Rightarrow> entry \<Rightarrow> bool" where
  "entry_reordered e e' \<longleftrightarrow>
     error_key e' = error_key e \<and> other_keys e' = other_keys e
     \<and> mappings_reordered (mappings_key e) (mappings_key e')"

definition body_reordered :: "(string \<rightharpoonup> entry) \<Rightarrow> (string \<rightharpoonup> entry) \<Rightarrow> bool" where
  "body_reordered data data' \<longleftrightarrow> (\<forall>k. rel_option entry_reordered (data k) (data' k))"

fun outcome_reordered :: "outcome \<Rightarrow> outcome \<Rightarrow> bool" where
  "outcome_reordered NetworkFailure NetworkFailure = True"
| "outcome_reordered (Response status_code ra data) (Response status_code' ra' data') =
     (status_code' = status_code \<and> ra' = ra \<and> body_reordered data data')"
| "outcome_reordered oc oc' = False"

subsection \<open>Sample inputs\<close>

text \<open>A response without any entry.\<close>

definition no_data :: "string \<rightharpoonup> entry" where
  "no_data = Map.empty"

text \<open>
  Mappings on the target assembly: on an unplaced scaffold, as the service names it; with
  a mitochondrial spelling that is not in the tuple of \<open>normalize_chr\<close>; with the integer
  zero as start; and with the text \<open>0\<close> as start.
\<close>

definition scaffold_entry :: entry where
  "scaffold_entry =
     \<lparr>error_key = False,
      mappings_key = Listed [\<lparr>assembly_name = Some ''GRCh38'', seq_region_name = Some ''KI270728.1'',
                            start = JInt 1000, allele_string = Some ''A/G''\<rparr>],
      other_keys = False\<rparr>"

definition mito_entry :: entry where
  "mito_entry =
     \<lparr>error_key = False,
      mappings_key = Listed [\<lparr>assembly_name = Some ''GRCh38'', seq_region_name = Some ''Mt'',
                            start = JInt 3243, allele_string = Some ''A/G''\<rparr>],
      other_keys = False\<rparr>"

definition zero_start_mapping :: mapping where
  "zero_start_mapping =
     \<lparr>assembly_name = Some ''GRCh38'', seq_region_name = Some ''1'', start = JInt 0,
      allele_string = Some ''A/G''\<rparr>"

definition text_zero_mapping :: mapping where
  "text_zero_mapping =
     \<lparr>assembly_name = Some ''GRCh38'', seq_region_name = Some ''1'', start = JStr ''0'',
      allele_string = Some ''A/G''\<rparr>"

text \<open>
  The variant of the specification's example: allele string \<open>A/G/T\<close> on \<open>chr7\<close> at
  117559590, in an entry that also has a mapping on the previous assembly, as the entry of
  \<open>rs1\<close>; the same entry with its mappings in the other order; and the state at the end
  of the run on the lines \<open>rs1\<close> and \<open>2\<close> with a batch size of one, the second response
  being empty.
\<close>

definition sample_mapping :: mapping where
  "sample_mapping =
     \<lparr>assembly_name = Some ''GRCh38'', seq_region_name = Some ''chr7'',
      start = JInt 117559590, allele_string = Some ''A/G/T''\<rparr>"

definition legacy_mapping :: mapping where
  "legacy_mapping =
     \<lparr>assembly_name = Some ''GRCh37'', seq_region_name = Some ''7'',
      start = JInt 117199644, allele_string = Some ''A/G/T''\<rparr>"

definition sample_entry :: entry where
  "sample_entry =
     \<lparr>error_key = False, mappings_key = Listed [legacy_mapping, sample_mapping], other_keys = True\<rparr>"

definition sample_entry_reordered :: entry where
  "sample_entry_reordered =
     \<lparr>error_key = False, mappings_key = Listed [sample_mapping, legacy_mapping], other_keys = True\<rparr>"

definition sample_data :: "string \<rightharpoonup> entry" where
  "sample_data = [''rs1'' \<mapsto> sample_entry]"

definition sample_data_reordered :: "string \<rightharpoonup> entry" where
  "sample_data_reordered = [''rs1'' \<mapsto> sample_entry_reordered]"

definition sample_run_state :: run_state where
  "sample_run_state =
     \<lparr>found = {''rs1''},
      missing = {''rs2''},
      id_rows = {''7:117559590:A:G'', ''7:117559590:A:T''},
      coord_rows =
        {''rs1'' @ [tab] @ ''7'' @ [tab] @ ''117559590'' @ [tab] @ ''A'' @ [tab] @ ''G'',
         ''rs1'' @ [tab] @ ''7'' @ [tab] @ ''117559590'' @ [tab] @ ''A'' @ [tab] @ ''T''},
      range_rows = {''7'' @ [tab] @ ''117559590'' @ [tab] @ ''117559590'' @ [tab] @ ''rs1''},
      ambig_rows = {''rs1'' @ [tab] @ ''2'' @ [tab] @ ''7:117559590:A:G;7:117559590:A:T''}\<rparr>"

section \<open>Verification\<close>

subsection \<open>Identifier Normalizer\<close>

lemma read_rsids_loop_set:
  "set (read_rsids_loop f (set out) out) = set out \<union> rs_prefixed ` (strip ` set f - {[]})"
proof (induction f arbitrary: out)
  case Nil
  show ?case by simp
next
  case (Cons line f)
  let ?s = "rs_prefixed (strip line)"
  have ins: "insert ?s (set out) = set (out @ [?s])" by simp
  show ?case
  proof (cases "strip line = []")
    case True
    then show ?thesis using Cons.IH [of out] by auto
  next
    case False
    show ?thesis
    proof (cases "?s \<in> set out")
      case True
      then show ?thesis using False Cons.IH [of out] by auto
    next
      case new: False
      have "set (read_rsids_loop (line # f) (set out) out) =
            set (read_rsids_loop f (set (out @ [?s])) (out @ [?s]))"
        using False new by (simp add: Let_def)
      also have "\<dots> = set (out @ [?s]) \<union> rs_prefixed ` (strip ` set f - {[]})"
        by (rule Cons.IH)
      finally show ?thesis using False by auto
    qed
  qed
qed

lemma read_rsids_loop_distinct:
  "distinct out \<Longrightarrow> distinct (read_rsids_loop f (set out) out)"
proof (induction f arbitrary: out)
  case Nil
  then show ?case by simp
next
  case (Cons line f)
  let ?s = "rs_prefixed (strip line)"
  show ?case
  proof (cases "strip line = [] \<or> ?s \<in> set out")
    case True
    then show ?thesis using Cons.IH [OF Cons.prems] by (auto simp: Let_def)
  next
    case False
    then have d: "distinct (out @ [?s])" using Cons.prems by simp
    have "read_rsids_loop (line # f) (set out) out =
          read_rsids_loop f (set (out @ [?s])) (out @ [?s])"
      using False by (simp add: Let_def)
    then show ?thesis using Cons.IH [OF d] by simp
  qed
qed

lemma read_rsids_set: "set (read_rsids f) = rs_prefixed ` (strip ` set f - {[]})"
  using read_rsids_loop_set [of f "[]"] by (simp add: read_rsids_def)

lemma read_rsids_distinct: "distinct (read_rsids f)"
  using read_rsids_loop_distinct [of "[]" f] by (simp add: read_rsids_def)

lemma read_rsids_upper: "read_rsids [''RS123''] = [''rsRS123'']"
  by (simp add: read_rsids_def strip_def isspace_def startswith_def rs_prefixed_def)

lemma read_rsids_bare: "read_rsids [''123'', ''rs123''] = [''rs123'']"
  by (simp add: read_rsids_def strip_def isspace_def startswith_def rs_prefixed_def)

text \<open>
  C10. The prefix test of \<open>read_rsids\<close> is case-sensitive on the lowercase string
  \<open>rs\<close>: the result holds, without repetition, the stripped non-blank lines, each with
  \<open>rs\<close> put in front unless it starts with \<open>rs\<close> already. So the line \<open>RS123\<close> gives
  \<open>rsRS123\<close>, which is not \<open>rs123\<close>, and the lines \<open>123\<close> and \<open>rs123\<close> give the one
  identifier \<open>rs123\<close>.
\<close>

theorem read_rsids_prefix_case_sensitive:
  "set (read_rsids f) = rs_prefixed ` (strip ` set f - {[]})
   \<and> distinct (read_rsids f)
   \<and> (\<not> startswith s ''rs'' \<longrightarrow> rs_prefixed s = ''rs'' @ s)
   \<and> (startswith s' ''rs'' \<longrightarrow> rs_prefixed s' = s')
   \<and> read_rsids [''RS123''] = [''rsRS123'']
   \<and> ''rsRS123'' \<noteq> ''rs123''
   \<and> read_rsids [''123'', ''rs123''] = [''rs123'']"
  using read_rsids_set [of f] read_rsids_distinct [of f] read_rsids_upper read_rsids_bare
  by (simp add: rs_prefixed_def)

theorem read_rsids_prefix_case_sensitive_witness:
  "\<not> startswith ''RS123'' ''rs'' \<and> rs_prefixed ''RS123'' = ''rsRS123''
   \<and> startswith ''rs123'' ''rs'' \<and> rs_prefixed ''rs123'' = ''rs123''
   \<and> distinct (read_rsids [''RS123'', ''123'', ''rs123''])"
  using read_rsids_prefix_case_sensitive [of "[''RS123'', ''123'', ''rs123'']" "''RS123''" "''rs123''"]
  by (simp add: startswith_def)

subsection \<open>Mapping Extractor\<close>

lemma collect_append:
  "collect (xs @ ys) out =
   (case collect xs out of Inl e \<Rightarrow> Inl e | Inr out' \<Rightarrow> collect ys out')"
  by (induction xs arbitrary: out) (auto split: sum.splits)

lemma collect_Inr:
  "collect ms out = Inr ts \<Longrightarrow>
   (\<forall>m \<in> set ms. \<exists>xs. mapping_tuples m = Inr xs) \<and>
   set ts = set out \<union> {t. \<exists>m \<in> set ms. \<exists>xs. mapping_tuples m = Inr xs \<and> t \<in> set xs}"
proof (induction ms arbitrary: out)
  case Nil
  then show ?case by simp
next
  case (Cons m ms)
  from Cons.prems obtain xs where m: "mapping_tuples m = Inr xs"
    and rest: "collect ms (out @ xs) = Inr ts"
    by (auto split: sum.splits)
  show ?case using Cons.IH [OF rest] m by auto
qed

lemma collect_total:
  "\<forall>m \<in> set ms. \<exists>xs. mapping_tuples m = Inr xs \<Longrightarrow> \<exists>ts. collect ms out = Inr ts"
  by (induction ms arbitrary: out) auto

lemma parse_collect:
  assumes "parse_grch38_mappings e = Inr ts"
  obtains ms out where "get_mappings e = Inr ms" and "collect ms [] = Inr out"
    and "ts = sorted_list_of_set (set out)"
  using assms by (auto simp: parse_grch38_mappings_def split: sum.splits)

lemma parse_Inr:
  assumes "parse_grch38_mappings e = Inr ts"
  shows "\<exists>ms. get_mappings e = Inr ms \<and> sorted ts \<and> distinct ts \<and>
         set ts = {t. \<exists>m \<in> set ms. \<exists>xs. mapping_tuples m = Inr xs \<and> t \<in> set xs}"
proof -
  from assms obtain ms out where g: "get_mappings e = Inr ms"
    and c: "collect ms [] = Inr out" and ts: "ts = sorted_list_of_set (set out)"
    by (rule parse_collect)
  have "sorted ts \<and> distinct ts \<and> set ts = set out" unfolding ts by simp
  then show ?thesis using collect_Inr [OF c] g by simp
qed

lemma lower_chr_length: "lower p = ''chr'' \<Longrightarrow> length p = 3"
  by (metis length_map lower_def length_Cons list.size(3) numeral_3_eq_3)

lemma normalize_chr_prefixed:
  assumes "lower p = ''chr''"
  shows "normalize_chr (p @ c) = (if c \<in> set mito_synonyms then ''M'' else c)"
proof -
  have l: "length p = 3" using assms by (rule lower_chr_length)
  have "take 3 (lower (p @ c)) = lower p" using l by (simp add: lower_def)
  then have "startswith (lower (p @ c)) ''chr''"
    using assms by (simp add: startswith_def numeral_3_eq_3)
  moreover have "drop 3 (p @ c) = c" using l by simp
  ultimately show ?thesis by (simp add: normalize_chr_def)
qed

lemma str_nat_length:
  assumes "n < 100"
  shows "length (str_nat n) \<le> 2"
proof (cases "n < 10")
  case True
  then show ?thesis by (simp add: str_nat.simps [of n])
next
  case False
  have "n div 10 < 10" using assms by simp
  then have "length (str_nat (n div 10)) = 1" by (simp add: str_nat.simps [of "n div 10"])
  then show ?thesis using False by (simp add: str_nat.simps [of n])
qed

lemma canonical_cases:
  "c \<in> canonical_chromosomes \<Longrightarrow> length c \<le> 2 \<or> c \<in> {''X'', ''Y'', ''M''}"
  using str_nat_length by (auto simp: canonical_chromosomes_def)

lemma short_no_chr: "length c \<le> 2 \<Longrightarrow> \<not> startswith (lower c) ''chr''"
proof
  assume l: "length c \<le> 2" and "startswith (lower c) ''chr''"
  then have "take 3 (lower c) = ''chr''" by (simp add: startswith_def numeral_3_eq_3)
  then have "length (take 3 (lower c)) = 3" by simp
  then show False using l by (simp add: lower_def)
qed

lemma canonical_no_chr:
  assumes "c \<in> canonical_chromosomes \<union> set mito_synonyms"
  shows "\<not> startswith (lower c) ''chr''"
proof (cases "length c \<le> 2")
  case True
  then show ?thesis by (rule short_no_chr)
next
  case False
  then have "c \<in> {''X'', ''Y'', ''M''} \<union> set mito_synonyms"
    using assms canonical_cases by blast
  then show ?thesis
    by (auto simp: mito_synonyms_def startswith_def lower_def lower_char_def)
qed

lemma normalize_chr_bare:
  "\<not> startswith (lower c) ''chr'' \<Longrightarrow> normalize_chr c = (if c \<in> set mito_synonyms then ''M'' else c)"
  by (simp add: normalize_chr_def)

lemma M_canonical: "''M'' \<in> canonical_chromosomes"
  by (simp add: canonical_chromosomes_def)

lemma normalize_chr_in_closed_set:
  assumes "c \<in> canonical_chromosomes \<union> set mito_synonyms" and "p = [] \<or> lower p = ''chr''"
  shows "normalize_chr (p @ c) = (if c \<in> set mito_synonyms then ''M'' else c)"
    and "normalize_chr (p @ c) \<in> canonical_chromosomes"
proof -
  show e: "normalize_chr (p @ c) = (if c \<in> set mito_synonyms then ''M'' else c)"
    using assms normalize_chr_prefixed [of p c] normalize_chr_bare [OF canonical_no_chr [OF assms(1)]]
    by auto
  show "normalize_chr (p @ c) \<in> canonical_chromosomes"
    using assms(1) M_canonical unfolding e by auto
qed

lemma normalize_MT: "normalize_chr ''MT'' = ''M''"
  by (simp add: normalize_chr_def startswith_def lower_def lower_char_def mito_synonyms_def)
lemma normalize_chrM: "normalize_chr ''chrM'' = ''M''"
  by (simp add: normalize_chr_def startswith_def lower_def lower_char_def mito_synonyms_def)
lemma normalize_mt: "normalize_chr ''mt'' = ''M''"
  by (simp add: normalize_chr_def startswith_def lower_def lower_char_def mito_synonyms_def)

lemma str_nat_digits: "set (str_nat n) \<subseteq> set ''0123456789''"
proof (induction n rule: str_nat.induct)
  case (1 n)
  have d: "digit_char k \<in> set ''0123456789''" if "k < 10" for k
    unfolding digit_char_def using that by (intro nth_mem) simp
  show ?case
  proof (cases "n < 10")
    case True
    then show ?thesis using d [of n] by (simp add: str_nat.simps [of n])
  next
    case False
    have "set (str_nat (n div 10)) \<subseteq> set ''0123456789''" using 1 False by simp
    moreover have "digit_char (n mod 10) \<in> set ''0123456789''" by (rule d) simp
    ultimately show ?thesis using False by (simp add: str_nat.simps [of n])
  qed
qed

lemma parse_scaffold:
  "parse_grch38_mappings scaffold_entry = Inr [(''KI270728.1'', 1000, ''A'', ''G'')]"
  by (simp add: scaffold_entry_def parse_grch38_mappings_def get_mappings_def mapping_tuples_def
      normalize_chr_def startswith_def lower_def lower_char_def mito_synonyms_def Let_def)

lemma parse_mito: "parse_grch38_mappings mito_entry = Inr [(''Mt'', 3243, ''A'', ''G'')]"
  by (simp add: mito_entry_def parse_grch38_mappings_def get_mappings_def mapping_tuples_def
      normalize_chr_def startswith_def lower_def lower_char_def mito_synonyms_def Let_def)

text \<open>
  C4 is what the module promises (\<open>Chrom names normalized: 1..22,X,Y,M\<close>), and the code
  does not keep it: \<open>normalize_chr\<close> never compares its result with the closed set. The
  name of an unplaced scaffold goes through unchanged, and so does the mitochondrial
  spelling \<open>Mt\<close>, which is not among the five of the tuple. The lemmas
  \<open>normalize_chr_prefixed\<close> and \<open>normalize_chr_bare\<close> say what the function does on
  every input.
\<close>

theorem chromosome_outside_closed_set:
  "parse_grch38_mappings scaffold_entry = Inr [(''KI270728.1'', 1000, ''A'', ''G'')]
   \<and> ''KI270728.1'' \<notin> canonical_chromosomes
   \<and> parse_grch38_mappings mito_entry = Inr [(''Mt'', 3243, ''A'', ''G'')]
   \<and> ''Mt'' \<notin> canonical_chromosomes"
proof -
  have "''KI270728.1'' \<notin> canonical_chromosomes"
    using canonical_cases [of "''KI270728.1''"] by auto
  moreover have "''Mt'' \<notin> canonical_chromosomes"
  proof
    assume "''Mt'' \<in> canonical_chromosomes"
    then obtain n where "''Mt'' = str_nat n" by (auto simp: canonical_chromosomes_def)
    then have "set ''Mt'' \<subseteq> set ''0123456789''" using str_nat_digits [of n] by simp
    then show False by simp
  qed
  ultimately show ?thesis using parse_scaffold parse_mito by simp
qed

lemma mapping_tuples_falsy:
  "\<not> truthy (start m) \<or> seq_region_name m = Some [] \<or> allele_string m = Some [] \<Longrightarrow>
   mapping_tuples m = Inr []"
  by (auto simp: mapping_tuples_def split: option.splits)

lemma mapping_tuples_absent:
  "start m = JNull \<or> seq_region_name m = None \<or> allele_string m = None \<Longrightarrow>
   mapping_tuples m = Inr []"
  by (auto simp: mapping_tuples_def split: option.splits)

lemma mapping_tuples_pos:
  "mapping_tuples m = Inr xs \<Longrightarrow> t \<in> set xs \<Longrightarrow>
   truthy (start m) \<and> py_int (start m) = Inr (fst (snd t))"
  by (cases "seq_region_name m"; cases "allele_string m")
    (auto simp: mapping_tuples_def Let_def split: if_splits sum.splits)

lemma parse_pos:
  assumes "parse_grch38_mappings e = Inr ts" and "t \<in> set ts"
  shows "\<exists>ms. get_mappings e = Inr ms
           \<and> (\<exists>m \<in> set ms. truthy (start m) \<and> py_int (start m) = Inr (fst (snd t)))"
proof -
  from parse_Inr [OF assms(1)] obtain ms where g: "get_mappings e = Inr ms"
    and s: "set ts = {t. \<exists>m \<in> set ms. \<exists>xs. mapping_tuples m = Inr xs \<and> t \<in> set xs}"
    by blast
  from assms(2) s obtain m xs where "m \<in> set ms" and "mapping_tuples m = Inr xs" and "t \<in> set xs"
    by blast
  then show ?thesis using g mapping_tuples_pos by blast
qed

lemma parse_skip:
  assumes "mapping_tuples m = Inr []"
  shows "parse_grch38_mappings (e\<lparr>mappings_key := Listed (ms1 @ m # ms2)\<rparr>) =
         parse_grch38_mappings (e\<lparr>mappings_key := Listed (ms1 @ ms2)\<rparr>)"
proof -
  have "collect (ms1 @ m # ms2) [] = collect (ms1 @ ms2) []"
    using assms by (simp add: collect_append split: sum.splits)
  then show ?thesis by (simp add: parse_grch38_mappings_def get_mappings_def)
qed

lemma py_trunc_zero: "py_trunc r = 0 \<longleftrightarrow> - 1 < r \<and> r < 1"
proof (cases "r < 0")
  case True
  have "\<lfloor>- r\<rfloor> = 0 \<longleftrightarrow> 0 \<le> - r \<and> - r < 1" by (simp add: floor_eq_iff)
  then show ?thesis using True by (auto simp: py_trunc_def)
next
  case False
  have "\<lfloor>r\<rfloor> = 0 \<longleftrightarrow> 0 \<le> r \<and> r < 1" by (simp add: floor_eq_iff)
  then show ?thesis using False by (auto simp: py_trunc_def)
qed

lemma truthy_zero:
  "truthy j \<and> py_int j = Inr 0 \<longleftrightarrow>
   (\<exists>s. j = JStr s \<and> int_of_str s = Inr 0)
   \<or> (\<exists>r. j = JFloat (Finite r) \<and> r \<noteq> 0 \<and> - 1 < r \<and> r < 1)"
proof (cases j)
  case (JStr s)
  have "int_of_str [] = Inl ValueError" by (simp add: int_of_str_def strip_def)
  then show ?thesis using JStr by auto
next
  case (JFloat x)
  then show ?thesis by (cases x) (auto simp: py_trunc_zero)
qed auto

text \<open>
  C9, as the claim states it, fails in its last part: truthiness is tested before
  \<open>int(pos)\<close>, and the text \<open>0\<close> is true, so such a start gives a tuple with the
  position zero.
\<close>

theorem position_zero_counterexample:
  "truthy (start text_zero_mapping)
   \<and> mapping_tuples text_zero_mapping = Inr [(''1'', 0, ''A'', ''G'')]
   \<and> parse_grch38_mappings (scaffold_entry\<lparr>mappings_key := Listed [text_zero_mapping]\<rparr>) =
       Inr [(''1'', 0, ''A'', ''G'')]"
  by (simp add: text_zero_mapping_def parse_grch38_mappings_def get_mappings_def
      mapping_tuples_def normalize_chr_def startswith_def lower_def lower_char_def
      mito_synonyms_def Let_def int_of_str_def max_str_digits_def strip_def isspace_def digit_value_def)

text \<open>
  C9, amended. A mapping on the target assembly whose start is false (the integer zero,
  but also \<open>null\<close>, \<open>false\<close>, \<open>0.0\<close>, an empty text, list or object), or whose region
  name or allele string is empty, adds no tuple, exactly like the mapping with that field
  absent and like the list without the mapping. The position of every tuple is \<open>int\<close> of
  a start that is true; it is zero only for a text that \<open>int\<close> reads as zero or for a
  float other than zero strictly between minus one and one, and never for an integer.
\<close>

theorem falsy_fields_skipped:
  assumes "\<not> truthy (start m) \<or> seq_region_name m = Some [] \<or> allele_string m = Some []"
  shows "mapping_tuples m = Inr []
    \<and> mapping_tuples m = mapping_tuples (m\<lparr>start := JNull\<rparr>)
    \<and> mapping_tuples m = mapping_tuples (m\<lparr>seq_region_name := None\<rparr>)
    \<and> mapping_tuples m = mapping_tuples (m\<lparr>allele_string := None\<rparr>)
    \<and> parse_grch38_mappings (e\<lparr>mappings_key := Listed (ms1 @ m # ms2)\<rparr>) =
         parse_grch38_mappings (e\<lparr>mappings_key := Listed (ms1 @ ms2)\<rparr>)
    \<and> \<not> truthy (JInt 0)
    \<and> (parse_grch38_mappings e' = Inr ts \<and> t \<in> set ts \<longrightarrow>
          (\<exists>ms. get_mappings e' = Inr ms
             \<and> (\<exists>m' \<in> set ms. truthy (start m') \<and> py_int (start m') = Inr (fst (snd t)))))
    \<and> (truthy j \<and> py_int j = Inr 0 \<longleftrightarrow>
          (\<exists>s. j = JStr s \<and> int_of_str s = Inr 0)
          \<or> (\<exists>r. j = JFloat (Finite r) \<and> r \<noteq> 0 \<and> - 1 < r \<and> r < 1))"
proof -
  have z: "mapping_tuples m = Inr []" using assms by (rule mapping_tuples_falsy)
  have "parse_grch38_mappings (e\<lparr>mappings_key := Listed (ms1 @ m # ms2)\<rparr>) =
         parse_grch38_mappings (e\<lparr>mappings_key := Listed (ms1 @ ms2)\<rparr>)"
    using z by (rule parse_skip)
  moreover have "parse_grch38_mappings e' = Inr ts \<and> t \<in> set ts \<longrightarrow>
          (\<exists>ms. get_mappings e' = Inr ms
             \<and> (\<exists>m' \<in> set ms. truthy (start m') \<and> py_int (start m') = Inr (fst (snd t))))"
    using parse_pos [of e' ts t] by blast
  ultimately show ?thesis
    unfolding z using truthy_zero [of j] by (simp add: mapping_tuples_absent)
qed

theorem falsy_fields_skipped_witness:
  "\<not> truthy (start zero_start_mapping)
   \<and> mapping_tuples zero_start_mapping = Inr []
   \<and> parse_grch38_mappings (scaffold_entry\<lparr>mappings_key := Listed [zero_start_mapping]\<rparr>) =
       parse_grch38_mappings (scaffold_entry\<lparr>mappings_key := Listed []\<rparr>)
   \<and> parse_grch38_mappings scaffold_entry = Inr [(''KI270728.1'', 1000, ''A'', ''G'')]
   \<and> (\<exists>ms. get_mappings scaffold_entry = Inr ms
         \<and> (\<exists>m' \<in> set ms. truthy (start m') \<and> py_int (start m') = Inr 1000))
   \<and> truthy (JStr ''0'') \<and> py_int (JStr ''0'') = Inr 0"
proof -
  have h: "\<not> truthy (start zero_start_mapping) \<or> seq_region_name zero_start_mapping = Some []
      \<or> allele_string zero_start_mapping = Some []"
    by (simp add: zero_start_mapping_def)
  have i: "int_of_str ''0'' = Inr 0"
    by (simp add: int_of_str_def max_str_digits_def strip_def isspace_def digit_value_def)
  show ?thesis
    using falsy_fields_skipped
      [OF h, where e = scaffold_entry and ?ms1.0 = "[]" and ?ms2.0 = "[]" and e' = scaffold_entry
        and ts = "[(''KI270728.1'', 1000, ''A'', ''G'')]" and t = "(''KI270728.1'', 1000, ''A'', ''G'')"
        and j = "JStr ''0''"]
      parse_scaffold i
    by (simp add: zero_start_mapping_def)
qed

subsection \<open>Resilient Query Client\<close>

lemma sleep_limit_large: "10 < sleep_limit"
  by (simp add: sleep_limit_def)

lemma time_sleep_finite:
  assumes "0 \<le> d" and "d < sleep_limit"
  shows "time_sleep (Finite d) = Inr d"
proof -
  have "\<not> d < - sleep_limit" using assms sleep_limit_large by simp
  then show ?thesis using assms by (simp add: time_sleep_def not_less [symmetric])
qed

lemma backoff_sleep_none:
  assumes "attempt < 1024"
  shows "backoff_sleep attempt None = Inr (min 10 ((1 / 4) * 2 ^ attempt))"
proof -
  define d :: rat where "d = min 10 ((1 / 4) * 2 ^ attempt)"
  have "d \<le> 10" unfolding d_def by (rule min.cobounded1)
  then have lt: "d < sleep_limit" using sleep_limit_large by simp
  have ge: "0 \<le> d" unfolding d_def by simp
  have "backoff_delay attempt None = Inr (Finite d)"
    using assms by (simp add: backoff_delay_def d_def)
  then show ?thesis
    using time_sleep_finite [OF ge lt] by (simp add: backoff_sleep_def d_def)
qed

lemma backoff_sleep_overflow:
  "1024 \<le> attempt \<Longrightarrow> backoff_sleep attempt None = Inl OverflowError"
  by (simp add: backoff_sleep_def backoff_delay_def)

lemma backoff_sleep_some:
  assumes "max (1 / 4) N \<le> sleep_limit / 2"
  shows "backoff_sleep attempt (Some (Finite N)) = Inr (max (1 / 4) N)"
proof -
  define d :: rat where "d = max (1 / 4) N"
  have ge: "0 \<le> d" unfolding d_def by (simp add: le_max_iff_disj)
  have "d \<le> sleep_limit / 2" using assms by (simp add: d_def)
  moreover have "sleep_limit / 2 < sleep_limit" using sleep_limit_large by simp
  ultimately have lt: "d < sleep_limit" by (rule le_less_trans)
  have "max_quarter (Finite N) = Finite d"
    by (simp add: max_quarter_def d_def max_def)
  then have "backoff_delay attempt (Some (Finite N)) = Inr (Finite d)"
    by (simp add: backoff_delay_def)
  then show ?thesis
    using time_sleep_finite [OF ge lt] by (simp add: backoff_sleep_def d_def)
qed

lemma orderly_sleep:
  assumes "orderly oc" and "attempt < 1024"
  shows "(case oc of
            NetworkFailure \<Rightarrow> backoff_sleep attempt None
          | Response status_code ra body \<Rightarrow>
              (case retry_after_arg ra of Inl e \<Rightarrow> Inl e | Inr arg \<Rightarrow> backoff_sleep attempt arg)) =
         Inr (backoff_policy_seconds attempt (signal oc))"
proof (cases oc)
  case NetworkFailure
  then show ?thesis
    using assms(2) by (simp add: backoff_sleep_none signal_def backoff_policy_seconds_def)
next
  case (Response status_code ra body)
  then have o: "header_orderly ra" using assms(1) by (simp add: orderly_def)
  show ?thesis
  proof (cases ra)
    case (Readable x)
    then show ?thesis
      using o Response by (cases x) (simp_all add: backoff_sleep_some signal_def backoff_policy_seconds_def)
  qed (use o Response assms(2) in
      \<open>simp_all add: backoff_sleep_none signal_def backoff_policy_seconds_def\<close>)
qed

lemma post_loop_retry:
  assumes "transient oc" and "orderly oc" and "int attempt < max_retries" and "attempt + 1 < 1024"
  shows "post_loop ids max_retries attempt (oc # w) tr =
         post_loop ids max_retries (attempt + 1) w
           (tr @ [Post ids, Sleep (backoff_policy_seconds (attempt + 1) (signal oc))])"
proof (cases oc)
  case NetworkFailure
  then show ?thesis
    using assms(3) orderly_sleep [OF assms(2) assms(4)] by simp
next
  case (Response status_code ra body)
  then show ?thesis
    using assms(1,3) orderly_sleep [OF assms(2) assms(4)]
    by (auto simp: transient_def split: sum.splits)
qed

lemma post_loop_transient:
  "\<forall>oc \<in> set fs. transient oc \<and> orderly oc \<Longrightarrow> int (attempt + length fs) \<le> max_retries \<Longrightarrow>
   attempt + length fs < 1024 \<Longrightarrow>
   post_loop ids max_retries attempt (fs @ w) tr =
   post_loop ids max_retries (attempt + length fs) w (tr @ retries ids attempt fs)"
proof (induction fs arbitrary: attempt tr)
  case Nil
  show ?case by simp
next
  case (Cons oc fs)
  have t: "transient oc" "orderly oc" and lt: "int attempt < max_retries" "attempt + 1 < 1024"
    using Cons.prems by auto
  have le: "int (attempt + 1 + length fs) \<le> max_retries" "attempt + 1 + length fs < 1024"
    using Cons.prems(2,3) by simp_all
  have rest: "\<forall>oc \<in> set fs. transient oc \<and> orderly oc" using Cons.prems(1) by simp
  have "post_loop ids max_retries attempt ((oc # fs) @ w) tr =
        post_loop ids max_retries (attempt + 1) (fs @ w)
          (tr @ [Post ids, Sleep (backoff_policy_seconds (attempt + 1) (signal oc))])"
    using post_loop_retry [OF t lt] by simp
  also have "\<dots> = post_loop ids max_retries (attempt + 1 + length fs) w
          ((tr @ [Post ids, Sleep (backoff_policy_seconds (attempt + 1) (signal oc))])
             @ retries ids (attempt + 1) fs)"
    by (rule Cons.IH [OF rest le])
  finally show ?case by simp
qed

lemma post_loop_exhausted:
  assumes "transient oc" and "max_retries \<le> int attempt"
  shows "post_loop ids max_retries attempt (oc # w) tr = (Raised (failure_error oc), w, tr @ [Post ids])"
  using assms by (cases oc) (auto simp: transient_def failure_error_def raise_for_status_def)

lemma post_loop_ok:
  "post_loop ids max_retries attempt (Response 200 ra body # w) tr = (Returned body, w, tr @ [Post ids])"
  by simp

lemma post_loop_client_error:
  assumes "400 \<le> status_code" and "status_code < 600"
    and "status_code \<notin> set [429, 500, 502, 503, 504]"
  shows "post_loop ids max_retries attempt (Response status_code ra body # w) tr =
         (Raised (HTTPError status_code), w, tr @ [Post ids])"
  using assms by (auto simp: raise_for_status_def)

lemma post_loop_no_content:
  "post_loop ids max_retries attempt (replicate n (Response 204 ra body)) tr =
   (Starved, [], tr @ replicate n (Post ids))"
proof (induction n arbitrary: tr)
  case 0
  show ?case by simp
next
  case (Suc n)
  have "post_loop ids max_retries attempt (replicate (Suc n) (Response 204 ra body)) tr =
        post_loop ids max_retries attempt (replicate n (Response 204 ra body)) (tr @ [Post ids])"
    by (simp add: raise_for_status_def)
  then show ?case by (simp add: Suc.IH replicate_app_Cons_same)
qed

lemma post_variation_batch_success:
  assumes "\<forall>oc \<in> set fs. transient oc \<and> orderly oc" and "int (length fs) \<le> max_retries"
    and "length fs < 1024"
  shows "post_variation_batch ids max_retries (fs @ Response 200 ra body # w) tr =
         (Returned body, w, tr @ retries ids 0 fs @ [Post ids])"
  using post_loop_transient [OF assms(1), of 0 max_retries ids "Response 200 ra body # w" tr]
    assms(2,3)
  by (simp add: post_variation_batch_def)

lemma post_variation_batch_give_up:
  assumes "\<forall>oc \<in> set fs. transient oc \<and> orderly oc" and "int (length fs) = max_retries"
    and "length fs < 1024" and "transient oc"
  shows "post_variation_batch ids max_retries (fs @ oc # w) tr =
         (Raised (failure_error oc), w, tr @ retries ids 0 fs @ [Post ids])"
  using post_loop_transient [OF assms(1), of 0 max_retries ids "oc # w" tr] assms(2,3)
    post_loop_exhausted [OF assms(4), of max_retries "length fs" ids w "tr @ retries ids 0 fs"]
  by (simp add: post_variation_batch_def)

lemma backoff_doubles:
  assumes "attempt + 1 \<le> 5"
  shows "backoff_sleep (attempt + 1) None = Inr (2 * min 10 ((1 / 4) * 2 ^ attempt))"
proof -
  have "(2::rat) ^ (attempt + 1) \<le> 2 ^ 5" using assms by (intro power_increasing) auto
  moreover have "(2::rat) ^ attempt \<le> 2 ^ 5" using assms by (intro power_increasing) auto
  moreover have "attempt + 1 < 1024" using assms by simp
  ultimately show ?thesis by (simp add: backoff_sleep_none min_def)
qed

lemma backoff_capped:
  assumes "6 \<le> attempt" and "attempt < 1024"
  shows "backoff_sleep attempt None = Inr 10"
proof -
  have "(2::rat) ^ 6 \<le> 2 ^ attempt" using assms(1) by (intro power_increasing) auto
  then show ?thesis using assms(2) by (simp add: backoff_sleep_none min_def)
qed

lemma retries_nth:
  "i < length fs \<Longrightarrow>
   retries ids attempt fs ! (2 * i) = Post ids \<and>
   retries ids attempt fs ! (2 * i + 1) =
     Sleep (backoff_policy_seconds (attempt + i + 1) (signal (fs ! i)))"
proof (induction fs arbitrary: attempt i)
  case Nil
  then show ?case by simp
next
  case (Cons oc fs)
  then show ?case by (cases i) auto
qed

lemma retries_length: "length (retries ids attempt fs) = 2 * length fs"
  by (induction fs arbitrary: attempt) auto

text \<open>
  C2 holds for the statuses from 400 to 599 outside the retried group
  (\<open>post_loop_client_error\<close>) and fails for every other status that is not 200:
  \<open>raise_for_status\<close> returns, the end of the loop body is reached, and \<open>while True\<close>
  posts the same request again at once, with no sleep and the counter unchanged. Against a
  service that answers 204 every time the client neither returns nor raises, however long
  the script.
\<close>

theorem non_error_status_reposts:
  "post_variation_batch ids default_max_retries (replicate n (Response 204 ra body)) tr =
   (Starved, [], tr @ replicate n (Post ids))"
  by (simp add: post_variation_batch_def post_loop_no_content)

text \<open>
  C3, as the claim states it, fails in its schedule: \<open>attempt\<close> is incremented before
  \<open>backoff_sleep\<close> is called, so the first retry without a signal sleeps half a second,
  not a quarter.
\<close>

theorem first_retry_sleep_counterexample:
  "snd (snd (post_variation_batch [''rs1''] default_max_retries
               [Response 503 NoHeader no_data, Response 200 NoHeader no_data] [])) =
     [Post [''rs1''], Sleep (1 / 2), Post [''rs1'']]
   \<and> (1 / 2 :: rat) \<noteq> 1 / 4"
  by (simp add: post_variation_batch_def default_max_retries_def backoff_sleep_none)

text \<open>
  C3, amended. \<open>backoff_sleep\<close> sleeps \<open>max(0.25, N)\<close> seconds for a \<open>Retry-After\<close> of
  \<open>N\<close> seconds, as long as that length is at most half the bound of \<open>time.sleep\<close>, and
  \<open>min(10, 0.25 * 2^attempt)\<close> seconds without one, for an attempt below 1024, where the
  power still converts to a float. In \<open>post_variation_batch\<close>, \<open>attempt\<close> counts the
  failures of the batch so far, this one included: the sleep after failure \<open>i + 1\<close> of a
  batch is that of the policy at \<open>i + 1\<close>, for failures that are transient and whose
  \<open>Retry-After\<close> is absent, empty or such a number of seconds. The schedule without a
  signal starts at half a second, doubles up to the fifth failure and never exceeds ten
  seconds, which it keeps from the sixth failure on.
\<close>

lemma backoff_ceiling: "backoff_sleep attempt None = Inr d \<Longrightarrow> d \<le> 10"
  by (cases "attempt < 1024") (auto simp: backoff_sleep_none backoff_sleep_overflow not_less)

theorem backoff_policy:
  "(max (1 / 4) N \<le> sleep_limit / 2 \<longrightarrow>
      backoff_sleep attempt (Some (Finite N)) = Inr (max (1 / 4) N))
   \<and> (attempt < 1024 \<longrightarrow> backoff_sleep attempt None = Inr (min 10 ((1 / 4) * 2 ^ attempt)))
   \<and> backoff_policy_seconds attempt (Some N) = max (1 / 4) N
   \<and> backoff_policy_seconds attempt None = min 10 ((1 / 4) * 2 ^ attempt)
   \<and> ((\<forall>oc \<in> set fs. transient oc \<and> orderly oc) \<and> int (length fs) \<le> max_retries
        \<and> length fs < 1024 \<and> i < length fs \<longrightarrow>
        post_variation_batch ids max_retries (fs @ Response 200 ra body # w) [] =
          (Returned body, w, retries ids 0 fs @ [Post ids])
        \<and> retries ids 0 fs ! (2 * i + 1) =
            Sleep (backoff_policy_seconds (i + 1) (signal (fs ! i))))
   \<and> backoff_sleep 1 None = Inr (1 / 2)
   \<and> (attempt + 1 \<le> 5 \<longrightarrow>
        backoff_sleep (attempt + 1) None = Inr (2 * min 10 ((1 / 4) * 2 ^ attempt)))
   \<and> (backoff_sleep attempt None = Inr d \<longrightarrow> d \<le> 10)
   \<and> (6 \<le> attempt \<and> attempt < 1024 \<longrightarrow> backoff_sleep attempt None = Inr 10)"
  using post_variation_batch_success [of fs max_retries ids ra body w "[]"]
    retries_nth [of i fs ids 0] backoff_sleep_none [of attempt] backoff_sleep_none [of 1]
    backoff_sleep_some [of N attempt] backoff_doubles [of attempt] backoff_capped [of attempt]
    backoff_ceiling [of attempt d]
  by (simp add: backoff_policy_seconds_def)

theorem backoff_policy_witness:
  "max (1 / 4) 3 \<le> sleep_limit / 2 \<and> backoff_sleep 4 (Some (Finite 3)) = Inr 3
   \<and> backoff_sleep 4 None = Inr 4
   \<and> transient (Response 429 (Readable (Finite 3)) no_data)
   \<and> orderly (Response 429 (Readable (Finite 3)) no_data)
   \<and> transient NetworkFailure \<and> orderly NetworkFailure
   \<and> post_variation_batch [''rs1''] 5
       ([Response 429 (Readable (Finite 3)) no_data, NetworkFailure]
          @ Response 200 NoHeader no_data # []) [] =
       (Returned no_data, [],
        retries [''rs1''] 0 [Response 429 (Readable (Finite 3)) no_data, NetworkFailure]
          @ [Post [''rs1'']])
   \<and> retries [''rs1''] 0 [Response 429 (Readable (Finite 3)) no_data, NetworkFailure] ! 1 = Sleep 3
   \<and> retries [''rs1''] 0 [Response 429 (Readable (Finite 3)) no_data, NetworkFailure] ! 3 = Sleep 1
   \<and> backoff_sleep (4 + 1) None = Inr 8
   \<and> (8 :: rat) \<le> 10
   \<and> backoff_sleep 7 None = Inr 10"
proof -
  have l: "max (1 / 4) 3 \<le> sleep_limit / 2" by (simp add: sleep_limit_def)
  have t: "\<forall>oc \<in> set [Response 429 (Readable (Finite 3)) no_data, NetworkFailure].
      transient oc \<and> orderly oc"
    using l by (simp add: transient_def orderly_def)
  show ?thesis
    using backoff_policy [where N = 3 and attempt = 4 and max_retries = 5 and i = 0
        and fs = "[Response 429 (Readable (Finite 3)) no_data, NetworkFailure]"
        and ids = "[''rs1'']" and ra = NoHeader and body = no_data and w = "[]" and d = 4]
      backoff_policy [where N = 3 and attempt = 4 and max_retries = 5 and i = 1
        and fs = "[Response 429 (Readable (Finite 3)) no_data, NetworkFailure]"
        and ids = "[''rs1'']" and ra = NoHeader and body = no_data and w = "[]" and d = 4]
      backoff_policy [where N = 3 and attempt = 7 and max_retries = 0 and i = 0 and fs = "[]"
        and ids = "[]" and ra = NoHeader and body = no_data and w = "[]" and d = 10]
      t l
    by (simp add: signal_def backoff_policy_seconds_def)
qed

lemma batch_loop_success:
  assumes "\<forall>oc \<in> set fs. transient oc \<and> orderly oc" and "length fs \<le> 5"
  shows "batch_loop (ids # bs) st (fs @ Response 200 ra body # w) tr =
         (case process_batch body ids st of
            Inl e \<Rightarrow> (Raised e, w, tr @ retries ids 0 fs @ [Post ids])
          | Inr st' \<Rightarrow>
              batch_loop bs st' w (tr @ retries ids 0 fs @ [Post ids, Sleep (1 / 10)]))"
  using post_variation_batch_success [OF assms(1), of default_max_retries ids ra body w tr] assms(2)
  by (simp add: default_max_retries_def split: sum.splits)

lemma batch_loop_give_up:
  assumes "\<forall>oc \<in> set fs. transient oc \<and> orderly oc" and "length fs = 5" and "transient oc"
  shows "batch_loop (ids # bs) st (fs @ oc # w) tr =
         (Raised (failure_error oc), w, tr @ retries ids 0 fs @ [Post ids])"
  using post_variation_batch_give_up [OF assms(1) _ _ assms(3), of default_max_retries ids w tr]
    assms(2)
  by (simp add: default_max_retries_def)

lemma main_aborts:
  assumes "batch_loop bs init_state w [] = (Raised e, w', tr)"
    and "read_rsids f \<noteq> []" and "chunks (read_rsids f) n = Inr bs"
  shows "main f n w = (Raised e, tr)"
  using assms by (simp add: main_def)

text \<open>
  The retry ceiling. With the default ceiling, up to five transient outcomes of one batch
  whose \<open>Retry-After\<close> is absent, empty or a number of seconds are each followed by a sleep
  and a new post, for a batch at any place of the run, the counter starting at zero in
  every call; a sixth transient outcome in a row raises its own exception after the five
  sleeps, and \<open>main\<close> ends with it.
\<close>

lemma retry_ceiling_orderly:
  assumes "\<forall>oc \<in> set fs. transient oc \<and> orderly oc"
  shows "(length fs \<le> 5 \<longrightarrow>
            post_variation_batch ids default_max_retries (fs @ Response 200 ra body # w) tr =
              (Returned body, w, tr @ retries ids 0 fs @ [Post ids]))
    \<and> (length fs = 5 \<and> transient oc \<longrightarrow>
            post_variation_batch ids default_max_retries (fs @ oc # w) tr =
              (Raised (failure_error oc), w, tr @ retries ids 0 fs @ [Post ids])
            \<and> batch_loop (ids # bs) st (fs @ oc # w) tr =
                (Raised (failure_error oc), w, tr @ retries ids 0 fs @ [Post ids]))
    \<and> length (retries ids 0 fs) = 2 * length fs"
  using post_variation_batch_success [OF assms, of default_max_retries ids ra body w tr]
    post_variation_batch_give_up [OF assms, of default_max_retries oc ids w tr]
    batch_loop_give_up [OF assms, of oc ids bs st w tr]
    retries_length [of ids 0 fs]
  by (simp add: default_max_retries_def)

lemma read_two: "read_rsids [''rs1'', ''rs2''] = [''rs1'', ''rs2'']"
  by (simp add: read_rsids_def strip_def isspace_def startswith_def rs_prefixed_def)

lemma chunks_two: "chunks [''rs1'', ''rs2''] 1 = Inr [[''rs1''], [''rs2'']]"
  by (simp add: chunks_def slices.simps)

text \<open>
  C7 is what the function promises (\<open>retry on 429/5xx\<close>, \<open>honor Retry-After if present\<close>),
  and the code does not keep it for a \<open>Retry-After\<close> that is not a number, such as the
  HTTP date the header may carry: \<open>float(ra)\<close> raises \<open>ValueError\<close> outside any \<open>try\<close>,
  so the first such 429 ends the call and the run, with no retry, and the exception is not
  the failure of the request.
\<close>

theorem retry_after_date_not_retried:
  "transient (Response 429 Unreadable no_data)
   \<and> post_variation_batch [''rs1'', ''rs2''] default_max_retries
        [Response 429 Unreadable no_data, Response 200 NoHeader no_data] [] =
       (Raised ValueError, [Response 200 NoHeader no_data], [Post [''rs1'', ''rs2'']])
   \<and> main [''rs1'', ''rs2''] 200
        [Response 429 Unreadable no_data, Response 200 NoHeader no_data] =
       (Raised ValueError, [Post [''rs1'', ''rs2'']])"
proof -
  have c: "chunks [''rs1'', ''rs2''] 200 = Inr [[''rs1'', ''rs2'']]"
    by (simp add: chunks_def slices.simps)
  show ?thesis
    by (simp add: transient_def post_variation_batch_def default_max_retries_def main_def
        read_two c)
qed

subsection \<open>Result Aggregator\<close>

lemma fold_add_mapping_found:
  "found (fold (add_mapping rs_id) ms st) = (if ms = [] then found st else insert rs_id (found st))"
  by (induction ms arbitrary: st) (auto simp: add_mapping_def)

lemma fold_add_mapping_missing: "missing (fold (add_mapping rs_id) ms st) = missing st"
  by (induction ms arbitrary: st) (auto simp: add_mapping_def)

lemma process_rsid_empty:
  "mapping_result data rs_id = Inr [] \<Longrightarrow>
   process_rsid data rs_id st = Inr (st\<lparr>missing := insert rs_id (missing st)\<rparr>)"
  by (auto simp: mapping_result_def process_rsid_def Let_def split: option.splits if_splits)

lemma process_rsid_error:
  "mapping_result data rs_id = Inl e \<Longrightarrow> process_rsid data rs_id st = Inl e"
  by (auto simp: mapping_result_def process_rsid_def Let_def split: option.splits if_splits)

lemma process_rsid_nonempty:
  assumes "mapping_result data rs_id = Inr ms" and "ms \<noteq> []"
  shows "process_rsid data rs_id st =
         Inr (if length ms > 1
              then (fold (add_mapping rs_id) ms st)
                     \<lparr>ambig_rows := insert (ambig_row rs_id ms)
                                      (ambig_rows (fold (add_mapping rs_id) ms st))\<rparr>
              else fold (add_mapping rs_id) ms st)"
  using assms
  by (auto simp: mapping_result_def process_rsid_def Let_def split: option.splits if_splits)

lemma process_rsid_found:
  assumes "mapping_result data rs_id = Inr ms" and "ms \<noteq> []"
  shows "\<exists>st'. process_rsid data rs_id st = Inr st' \<and> found st' = insert rs_id (found st)
           \<and> missing st' = missing st"
  using assms(2)
  by (simp add: process_rsid_nonempty [OF assms] fold_add_mapping_found fold_add_mapping_missing)

lemma process_rsid_partition:
  assumes "rs_id \<notin> P" and "found st \<union> missing st = P" and "found st \<inter> missing st = {}"
    and "process_rsid data rs_id st = Inr st'"
  shows "found st' \<union> missing st' = insert rs_id P \<and> found st' \<inter> missing st' = {}"
proof (cases "mapping_result data rs_id")
  case (Inl e)
  then show ?thesis using assms(4) by (simp add: process_rsid_error)
next
  case (Inr ms)
  show ?thesis
  proof (cases "ms = []")
    case True
    then show ?thesis using Inr assms by (auto simp: process_rsid_empty)
  next
    case False
    then show ?thesis using process_rsid_found [OF Inr False, of st] assms by auto
  qed
qed

lemma process_batch_partition:
  "distinct batch_rsids \<Longrightarrow> set batch_rsids \<inter> P = {} \<Longrightarrow>
   found st \<union> missing st = P \<Longrightarrow> found st \<inter> missing st = {} \<Longrightarrow>
   process_batch data batch_rsids st = Inr st' \<Longrightarrow>
   found st' \<union> missing st' = P \<union> set batch_rsids \<and> found st' \<inter> missing st' = {}"
proof (induction batch_rsids arbitrary: P st)
  case Nil
  then show ?case by simp
next
  case (Cons rs_id rest)
  from Cons.prems(5) obtain st1 where one: "process_rsid data rs_id st = Inr st1"
    and more: "process_batch data rest st1 = Inr st'"
    by (auto split: sum.splits)
  have notin: "rs_id \<notin> P" using Cons.prems(2) by auto
  have step: "found st1 \<union> missing st1 = insert rs_id P \<and> found st1 \<inter> missing st1 = {}"
    using process_rsid_partition [OF notin Cons.prems(3) Cons.prems(4) one] .
  have d: "distinct rest" and disj: "set rest \<inter> insert rs_id P = {}"
    using Cons.prems(1,2) by auto
  have "found st' \<union> missing st' = insert rs_id P \<union> set rest \<and> found st' \<inter> missing st' = {}"
    using Cons.IH [OF d disj _ _ more] step by blast
  then show ?case by simp
qed

lemma batch_loop_step:
  assumes "batch_loop (b # bs) st w tr = (Returned st', w', tr')"
  obtains data w1 tr1 st1 where "post_variation_batch b default_max_retries w tr = (Returned data, w1, tr1)"
    and "process_batch data b st = Inr st1"
    and "batch_loop bs st1 w1 (tr1 @ [Sleep (1 / 10)]) = (Returned st', w', tr')"
proof -
  obtain r w1 tr1 where call: "post_variation_batch b default_max_retries w tr = (r, w1, tr1)"
    by (cases "post_variation_batch b default_max_retries w tr") auto
  then obtain data where r: "r = Returned data"
    using assms by (cases r) auto
  obtain st1 where p: "process_batch data b st = Inr st1"
    using assms call r by (cases "process_batch data b st") auto
  show thesis using that [of data w1 tr1 st1] assms call r p by simp
qed

lemma batch_loop_partition:
  "distinct (concat bs) \<Longrightarrow> set (concat bs) \<inter> P = {} \<Longrightarrow>
   found st \<union> missing st = P \<Longrightarrow> found st \<inter> missing st = {} \<Longrightarrow>
   batch_loop bs st w tr = (Returned st', w', tr') \<Longrightarrow>
   found st' \<union> missing st' = P \<union> set (concat bs) \<and> found st' \<inter> missing st' = {}"
proof (induction bs arbitrary: P st w tr)
  case Nil
  then show ?case by simp
next
  case (Cons b bs)
  from Cons.prems(5) obtain data w1 tr1 st1 where p: "process_batch data b st = Inr st1"
    and rec: "batch_loop bs st1 w1 (tr1 @ [Sleep (1 / 10)]) = (Returned st', w', tr')"
    by (rule batch_loop_step)
  have db: "distinct b" and bP: "set b \<inter> P = {}"
    using Cons.prems(1,2) by auto
  have step: "found st1 \<union> missing st1 = P \<union> set b \<and> found st1 \<inter> missing st1 = {}"
    using process_batch_partition [OF db bP Cons.prems(3) Cons.prems(4) p] .
  have d: "distinct (concat bs)" and disj: "set (concat bs) \<inter> (P \<union> set b) = {}"
    using Cons.prems(1,2) by auto
  have "found st' \<union> missing st' = (P \<union> set b) \<union> set (concat bs) \<and> found st' \<inter> missing st' = {}"
    using Cons.IH [OF d disj _ _ rec] step by blast
  then show ?case by auto
qed

lemma concat_slices: "0 < n \<Longrightarrow> concat (slices n seq) = seq"
proof (induction n seq rule: slices.induct)
  case (1 n seq)
  show ?case
  proof (cases "seq = []")
    case True
    then show ?thesis by (simp add: slices.simps)
  next
    case False
    then have "concat (slices n (drop n seq)) = drop n seq" using 1 by simp
    then show ?thesis using False "1.prems" by (simp add: slices.simps [of n seq])
  qed
qed

lemma chunks_concat:
  assumes "chunks seq n = Inr bs" and "distinct seq"
  shows "distinct (concat bs) \<and> set (concat bs) \<subseteq> set seq"
proof (cases "n < 0")
  case True
  then have "bs = []" using assms(1) by (simp add: chunks_def)
  then show ?thesis by simp
next
  case False
  then have "0 < nat n" and "bs = slices (nat n) seq"
    using assms(1) by (auto simp: chunks_def split: if_splits)
  then have "concat bs = seq" by (simp add: concat_slices)
  then show ?thesis using assms(2) by simp
qed

lemma main_complete:
  assumes "main f n w = (Returned (st, files), tr)"
  obtains bs st0 w' where "chunks (read_rsids f) n = Inr bs"
    and "batch_loop bs init_state w [] = (Returned st0, w', tr)"
    and "st = finalize (read_rsids f) st0" and "files = write_files st"
proof -
  from assms have ne: "read_rsids f \<noteq> []" by (auto simp: main_def Let_def split: if_splits)
  from assms ne obtain bs where c: "chunks (read_rsids f) n = Inr bs"
    by (cases "chunks (read_rsids f) n") (auto simp: main_def Let_def)
  obtain r w' tr' where b: "batch_loop bs init_state w [] = (r, w', tr')"
    by (cases "batch_loop bs init_state w []") auto
  from assms ne c b obtain st0 where "r = Returned st0"
    by (cases r) (auto simp: main_def Let_def)
  with assms ne c b that show thesis
    by (auto simp: main_def Let_def)
qed

lemma main_partition:
  assumes "main f n w = (Returned (st, files), tr)"
  shows "found st \<union> missing st = set (read_rsids f) \<and> found st \<inter> missing st = {}"
proof -
  from assms obtain bs st0 w' where c: "chunks (read_rsids f) n = Inr bs"
    and b: "batch_loop bs init_state w [] = (Returned st0, w', tr)"
    and st: "st = finalize (read_rsids f) st0"
    by (rule main_complete)
  have cc: "distinct (concat bs) \<and> set (concat bs) \<subseteq> set (read_rsids f)"
    using chunks_concat [OF c read_rsids_distinct] .
  have "found st0 \<union> missing st0 = {} \<union> set (concat bs) \<and> found st0 \<inter> missing st0 = {}"
    using cc by (intro batch_loop_partition [OF _ _ _ _ b]) (auto simp: init_state_def)
  then show ?thesis using cc unfolding st finalize_def by auto
qed

text \<open>
  C6. At the end of every complete run, whatever the input lines, the batch size and the
  responses, the sets \<open>found\<close> and \<open>missing\<close> are disjoint and their union is the set of
  the requested identifiers: each requested identifier is in exactly one of them.
\<close>

theorem found_missing_partition:
  assumes "main f n w = (Returned (st, files), tr)"
  shows "found st \<union> missing st = set (read_rsids f) \<and> found st \<inter> missing st = {}
    \<and> (\<forall>rs_id \<in> set (read_rsids f). (rs_id \<in> found st) \<noteq> (rs_id \<in> missing st))"
  using main_partition [OF assms] by auto

lemma no_result: "mapping_result no_data rs_id = Inr []"
  by (simp add: mapping_result_def no_data_def)

text \<open>
  C1, as the claim states it, fails: \<open>missing.add(rs_id)\<close> runs inside the loop, so the
  state that enters the second batch already holds the identifier the first response left
  out.
\<close>

theorem missing_incremental_counterexample:
  "chunks [''rs1'', ''rs2''] 1 = Inr [[''rs1''], [''rs2'']]
   \<and> process_batch no_data [''rs1''] init_state = Inr (init_state\<lparr>missing := {''rs1''}\<rparr>)
   \<and> batch_loop [[''rs1''], [''rs2'']] init_state
        [Response 200 NoHeader no_data, Response 200 NoHeader no_data] [] =
      batch_loop [[''rs2'']] (init_state\<lparr>missing := {''rs1''}\<rparr>)
        [Response 200 NoHeader no_data] [Post [''rs1''], Sleep (1 / 10)]
   \<and> missing (init_state\<lparr>missing := {''rs1''}\<rparr>) = {''rs1''}"
  by (simp add: chunks_two post_variation_batch_def process_rsid_empty [OF no_result]
      init_state_def)

text \<open>
  C1, amended. At the end of every complete run \<open>missing\<close> is the set of the requested
  identifiers minus \<open>found\<close>. It is built incrementally: the loop body adds an identifier
  with an empty MappingResult to \<open>missing\<close> at once, and one with a MappingResult that is
  not empty to \<open>found\<close>, leaving \<open>missing\<close> as it is.
\<close>

theorem missing_is_requested_minus_found:
  "(main f n w = (Returned (st, files), tr) \<longrightarrow> missing st = set (read_rsids f) - found st)
   \<and> (mapping_result data rs_id = Inr [] \<longrightarrow>
        (\<exists>st'. process_rsid data rs_id st0 = Inr st' \<and> rs_id \<in> missing st'))
   \<and> (mapping_result data rs_id = Inr ms \<and> ms \<noteq> [] \<longrightarrow>
        (\<exists>st'. process_rsid data rs_id st0 = Inr st' \<and> missing st' = missing st0
           \<and> rs_id \<in> found st'))"
  using main_partition [of f n w st files tr] process_rsid_empty [of data rs_id st0]
    process_rsid_found [of data rs_id ms st0]
  by auto

subsection \<open>Multi-allelic expansion\<close>

lemma split_nonempty: "split sep s \<noteq> []"
  by (induction s) auto

lemma split_plain: "sep \<notin> set t \<Longrightarrow> split sep t = [t]"
  by (induction t) auto

lemma split_append:
  "sep \<notin> set t \<Longrightarrow> split sep (t @ sep # s) = t # split sep s"
  by (induction t) auto

lemma split_join:
  "\<forall>t \<in> set ts. sep \<notin> set t \<Longrightarrow> ts \<noteq> [] \<Longrightarrow> split sep (join [sep] ts) = ts"
proof (induction "[sep]" ts rule: join.induct)
  case 1
  then show ?case by simp
next
  case (2 x)
  then show ?case by (simp add: split_plain)
next
  case (3 x y ys)
  then show ?case by (simp add: split_append)
qed

lemma mapping_tuples_expand:
  assumes "assembly_name m = Some ''GRCh38''"
    and "seq_region_name m = Some chrom" and "chrom \<noteq> []"
    and "truthy (start m)" and "py_int (start m) = Inr pos"
    and "allele_string m = Some (join ''/'' (ref # alts))" and "join ''/'' (ref # alts) \<noteq> []"
    and "\<forall>t \<in> set (ref # alts). CHR ''/'' \<notin> set t"
  shows "mapping_tuples m =
         Inr (if alts = [] then [(normalize_chr chrom, pos, ref, ref)]
              else map (\<lambda>alt. (normalize_chr chrom, pos, ref, alt)) alts)"
proof -
  have "split CHR ''/'' (join ''/'' (ref # alts)) = ref # alts"
    using split_join [OF assms(8)] by simp
  then show ?thesis using assms(1-7) by (simp add: mapping_tuples_def Let_def)
qed

lemma parse_returns:
  assumes "get_mappings e = Inr ms" and "\<forall>m \<in> set ms. \<exists>xs. mapping_tuples m = Inr xs"
  shows "\<exists>ts. parse_grch38_mappings e = Inr ts"
  using collect_total [OF assms(2), of "[]"] assms(1) by (auto simp: parse_grch38_mappings_def)

lemma parse_not_iterable:
  "mappings_key e = NotIterable \<Longrightarrow> parse_grch38_mappings e = Inl TypeError"
  by (simp add: parse_grch38_mappings_def get_mappings_def)

lemma parse_sample: "parse_grch38_mappings sample_entry =
    Inr [(''7'', 117559590, ''A'', ''G''), (''7'', 117559590, ''A'', ''T'')]"
  by code_simp

lemma str_pos: "str_int 117559590 = ''117559590''"
  by (simp add: str_int_def str_nat.simps digit_char_def)

lemma str_two: "str_int 2 = ''2''"
  by (simp add: str_int_def str_nat.simps digit_char_def)

subsection \<open>The sample run\<close>

lemma sample_tuples:
  "mapping_tuples sample_mapping =
     Inr [(''7'', 117559590, ''A'', ''G''), (''7'', 117559590, ''A'', ''T'')]"
  by (simp add: sample_mapping_def mapping_tuples_def normalize_chr_def startswith_def lower_def
      lower_char_def mito_synonyms_def Let_def)

lemma read_sample: "read_rsids [''rs1'', ''2''] = [''rs1'', ''rs2'']"
  by (simp add: read_rsids_def strip_def isspace_def startswith_def rs_prefixed_def)

lemma sample_result: "mapping_result sample_data ''rs1'' =
    Inr [(''7'', 117559590, ''A'', ''G''), (''7'', 117559590, ''A'', ''T'')]"
  by (simp add: mapping_result_def sample_data_def entry_falsy_def parse_sample)
    (simp add: sample_entry_def)

lemma sample_first:
  "process_rsid sample_data ''rs1'' init_state = Inr (sample_run_state\<lparr>missing := {}\<rparr>)"
  by (auto simp: process_rsid_nonempty [OF sample_result] add_mapping_def init_state_def
      sample_run_state_def ambig_row_def str_pos str_two)

lemma sample_second:
  "process_rsid no_data ''rs2'' (sample_run_state\<lparr>missing := {}\<rparr>) = Inr sample_run_state"
  by (simp add: process_rsid_empty [OF no_result] sample_run_state_def)

lemma sample_final: "finalize [''rs1'', ''rs2''] sample_run_state = sample_run_state"
  by (auto simp: finalize_def sample_run_state_def)

lemma sample_main:
  "main [''rs1'', ''2''] 1 [Response 200 NoHeader sample_data, Response 200 NoHeader no_data] =
     (Returned (sample_run_state, write_files sample_run_state),
      [Post [''rs1''], Sleep (1 / 10), Post [''rs2''], Sleep (1 / 10)])"
  by (simp add: main_def read_sample chunks_two post_variation_batch_def sample_first
      sample_second sample_final Let_def)

text \<open>
  C5. A mapping kept by the extractor whose allele string is \<open>REF/ALT1/.../ALTk\<close> (tokens
  without a slash) gives one tuple (chromosome, position, REF, ALTi) for each alternate
  token, in their order, and the single tuple (chromosome, position, REF, REF) when there
  is no alternate token. \<open>parse_grch38_mappings\<close> returns when the value of \<open>mappings\<close>
  can be iterated and every mapping converts, and the list it returns is sorted, without
  repetition, and holds exactly the tuples of the entry's mappings. The allele string \<open>A/G/T\<close> on \<open>chr7\<close> at 117559590 gives the two
  tuples (7, 117559590, A, G) and (7, 117559590, A, T), and the identifier gets an ambiguity
  row with the count 2.
\<close>

theorem multi_allelic_expansion:
  assumes "assembly_name m = Some ''GRCh38''"
    and "seq_region_name m = Some chrom" and "chrom \<noteq> []"
    and "truthy (start m)" and "py_int (start m) = Inr pos"
    and "allele_string m = Some (join ''/'' (ref # alts))" and "join ''/'' (ref # alts) \<noteq> []"
    and "\<forall>t \<in> set (ref # alts). CHR ''/'' \<notin> set t"
  shows "mapping_tuples m =
           Inr (if alts = [] then [(normalize_chr chrom, pos, ref, ref)]
                else map (\<lambda>alt. (normalize_chr chrom, pos, ref, alt)) alts)
    \<and> (get_mappings e = Inr ms \<and> (\<forall>m' \<in> set ms. \<exists>xs. mapping_tuples m' = Inr xs) \<longrightarrow>
          (\<exists>ts. parse_grch38_mappings e = Inr ts))
    \<and> (parse_grch38_mappings e = Inr ts \<longrightarrow>
          (\<exists>ms'. get_mappings e = Inr ms' \<and> sorted ts \<and> distinct ts
             \<and> set ts = {t. \<exists>m' \<in> set ms'. \<exists>xs. mapping_tuples m' = Inr xs \<and> t \<in> set xs}))
    \<and> parse_grch38_mappings sample_entry =
         Inr [(''7'', 117559590, ''A'', ''G''), (''7'', 117559590, ''A'', ''T'')]
    \<and> (\<exists>st'. process_rsid sample_data ''rs1'' init_state = Inr st'
          \<and> ambig_rows st' = {''rs1'' @ [tab] @ ''2'' @ [tab] @ ''7:117559590:A:G;7:117559590:A:T''})"
proof -
  have "\<exists>st'. process_rsid sample_data ''rs1'' init_state = Inr st'
          \<and> ambig_rows st' = {''rs1'' @ [tab] @ ''2'' @ [tab] @ ''7:117559590:A:G;7:117559590:A:T''}"
    by (simp add: sample_first sample_run_state_def)
  then show ?thesis
    using mapping_tuples_expand [OF assms] parse_returns [of e ms] parse_Inr [of e ts] parse_sample
    by blast
qed

theorem multi_allelic_expansion_witness:
  "assembly_name sample_mapping = Some ''GRCh38''
   \<and> seq_region_name sample_mapping = Some ''chr7'' \<and> ''chr7'' \<noteq> []
   \<and> truthy (start sample_mapping) \<and> py_int (start sample_mapping) = Inr 117559590
   \<and> allele_string sample_mapping = Some (join ''/'' [''A'', ''G'', ''T''])
   \<and> join ''/'' [''A'', ''G'', ''T''] \<noteq> []
   \<and> CHR ''/'' \<notin> set ''A'' \<and> CHR ''/'' \<notin> set ''G'' \<and> CHR ''/'' \<notin> set ''T''
   \<and> mapping_tuples sample_mapping =
        Inr [(normalize_chr ''chr7'', 117559590, ''A'', ''G''),
             (normalize_chr ''chr7'', 117559590, ''A'', ''T'')]
   \<and> normalize_chr ''chr7'' = ''7''
   \<and> sorted [(''7'', 117559590 :: int, ''A'', ''G''), (''7'', 117559590, ''A'', ''T'')]"
proof -
  have h: "assembly_name sample_mapping = Some ''GRCh38''"
    "seq_region_name sample_mapping = Some ''chr7''" "''chr7'' \<noteq> []"
    "truthy (start sample_mapping)" "py_int (start sample_mapping) = Inr 117559590"
    "allele_string sample_mapping = Some (join ''/'' (''A'' # [''G'', ''T'']))"
    "join ''/'' (''A'' # [''G'', ''T'']) \<noteq> []"
    "\<forall>t \<in> set (''A'' # [''G'', ''T'']). CHR ''/'' \<notin> set t"
    by (simp_all add: sample_mapping_def)
  have n: "normalize_chr ''chr7'' = ''7''"
    by (simp add: normalize_chr_def startswith_def lower_def lower_char_def mito_synonyms_def)
  show ?thesis
    using multi_allelic_expansion [OF h, where e = sample_entry
        and ms = "[legacy_mapping, sample_mapping]"
        and ts = "[(''7'', 117559590, ''A'', ''G''), (''7'', 117559590, ''A'', ''T'')]"] h n
    by simp
qed

theorem found_missing_partition_witness:
  "main [''rs1'', ''2''] 1 [Response 200 NoHeader sample_data, Response 200 NoHeader no_data] =
     (Returned (sample_run_state, write_files sample_run_state),
      [Post [''rs1''], Sleep (1 / 10), Post [''rs2''], Sleep (1 / 10)])
   \<and> found sample_run_state \<union> missing sample_run_state = set (read_rsids [''rs1'', ''2''])
   \<and> found sample_run_state \<inter> missing sample_run_state = {}
   \<and> found sample_run_state = {''rs1''} \<and> missing sample_run_state = {''rs2''}"
  using found_missing_partition [OF sample_main] sample_main
  by (simp add: sample_run_state_def)

theorem missing_is_requested_minus_found_witness:
  "main [''rs1'', ''2''] 1 [Response 200 NoHeader sample_data, Response 200 NoHeader no_data] =
     (Returned (sample_run_state, write_files sample_run_state),
      [Post [''rs1''], Sleep (1 / 10), Post [''rs2''], Sleep (1 / 10)])
   \<and> missing sample_run_state = set (read_rsids [''rs1'', ''2'']) - found sample_run_state
   \<and> mapping_result no_data ''rs2'' = Inr []
   \<and> (\<exists>st'. process_rsid no_data ''rs2'' init_state = Inr st' \<and> ''rs2'' \<in> missing st')
   \<and> mapping_result sample_data ''rs1'' =
       Inr [(''7'', 117559590, ''A'', ''G''), (''7'', 117559590, ''A'', ''T'')]
   \<and> (\<exists>st'. process_rsid sample_data ''rs1'' init_state = Inr st'
         \<and> missing st' = missing init_state \<and> ''rs1'' \<in> found st')"
  using missing_is_requested_minus_found
      [where f = "[''rs1'', ''2'']" and n = 1
        and w = "[Response 200 NoHeader sample_data, Response 200 NoHeader no_data]"
        and st = sample_run_state and files = "write_files sample_run_state"
        and tr = "[Post [''rs1''], Sleep (1 / 10), Post [''rs2''], Sleep (1 / 10)]"
        and data = no_data and rs_id = "''rs2''" and ?st0.0 = init_state and ms = "[]"]
    missing_is_requested_minus_found
      [where f = "[]" and n = 0 and w = "[]" and st = init_state
        and files = "write_files init_state" and tr = "[]"
        and data = sample_data and rs_id = "''rs1''" and ?st0.0 = init_state
        and ms = "[(''7'', 117559590, ''A'', ''G''), (''7'', 117559590, ''A'', ''T'')]"]
    sample_main no_result [of "''rs2''"] sample_result
  by simp

subsection \<open>Output Writer\<close>

lemma fold_add_mapping_eq:
  "fold (add_mapping rs_id) ms st =
   st\<lparr>coord_rows := coord_row rs_id ` set ms \<union> coord_rows st,
      id_rows := id_row ` set ms \<union> id_rows st,
      range_rows := range_row rs_id ` set ms \<union> range_rows st,
      found := (if ms = [] then {} else {rs_id}) \<union> found st\<rparr>"
proof (induction ms arbitrary: st)
  case Nil
  show ?case by simp
next
  case (Cons t ms)
  show ?case by (simp add: Cons.IH) (simp add: add_mapping_def)
qed

lemma process_rsid_result:
  assumes "process_rsid data rs_id st = Inr st'"
  obtains ms where "mapping_result data rs_id = Inr ms"
  using assms by (cases "mapping_result data rs_id") (auto simp: process_rsid_error)

lemma process_rsid_same_result:
  assumes "mapping_result data' rs_id = mapping_result data rs_id"
  shows "process_rsid data' rs_id st = process_rsid data rs_id st"
proof (cases "mapping_result data rs_id")
  case (Inl e)
  then show ?thesis using assms by (simp add: process_rsid_error)
next
  case (Inr ms)
  then show ?thesis
    using assms process_rsid_empty [of data rs_id st] process_rsid_empty [of data' rs_id st]
      process_rsid_nonempty [of data rs_id ms st] process_rsid_nonempty [of data' rs_id ms st]
    by (cases "ms = []") simp_all
qed

lemma process_rsid_idem:
  assumes "process_rsid data rs_id st = Inr st'"
  shows "process_rsid data rs_id st' = Inr st'"
proof -
  from assms obtain ms where r: "mapping_result data rs_id = Inr ms"
    by (rule process_rsid_result)
  show ?thesis
  proof (cases "ms = []")
    case True
    then show ?thesis using assms r by (auto simp: process_rsid_empty)
  next
    case False
    show ?thesis
      using assms by (auto simp: process_rsid_nonempty [OF r False] fold_add_mapping_eq)
  qed
qed

lemma process_rsid_finite:
  assumes "finite_rows st" and "process_rsid data rs_id st = Inr st'"
  shows "finite_rows st'"
proof -
  from assms(2) obtain ms where r: "mapping_result data rs_id = Inr ms"
    by (rule process_rsid_result)
  show ?thesis
  proof (cases "ms = []")
    case True
    then show ?thesis using assms r by (auto simp: process_rsid_empty finite_rows_def)
  next
    case False
    show ?thesis
      using assms
      by (auto simp: process_rsid_nonempty [OF r False] fold_add_mapping_eq finite_rows_def)
  qed
qed

lemma process_batch_finite:
  "finite_rows st \<Longrightarrow> process_batch data b st = Inr st' \<Longrightarrow> finite_rows st'"
proof (induction b arbitrary: st)
  case Nil
  then show ?case by simp
next
  case (Cons rs_id b)
  from Cons.prems(2) obtain st1 where one: "process_rsid data rs_id st = Inr st1"
    and more: "process_batch data b st1 = Inr st'"
    by (auto split: sum.splits)
  show ?case using Cons.IH [OF process_rsid_finite [OF Cons.prems(1) one] more] .
qed

lemma batch_loop_finite:
  "finite_rows st \<Longrightarrow> batch_loop bs st w tr = (Returned st', w', tr') \<Longrightarrow> finite_rows st'"
proof (induction bs arbitrary: st w tr)
  case Nil
  then show ?case by simp
next
  case (Cons b bs)
  from Cons.prems(2) obtain data w1 tr1 st1 where p: "process_batch data b st = Inr st1"
    and rec: "batch_loop bs st1 w1 (tr1 @ [Sleep (1 / 10)]) = (Returned st', w', tr')"
    by (rule batch_loop_step)
  show ?case using Cons.IH [OF process_batch_finite [OF Cons.prems(1) p] rec] .
qed

lemma main_finite:
  assumes "main f n w = (Returned (st, files), tr)"
  shows "finite_rows st"
proof -
  from assms obtain bs st0 w' where b: "batch_loop bs init_state w [] = (Returned st0, w', tr)"
    and st: "st = finalize (read_rsids f) st0"
    by (rule main_complete)
  have "finite_rows init_state" by (simp add: finite_rows_def init_state_def)
  then have "finite_rows st0" using b by (rule batch_loop_finite)
  then show ?thesis unfolding st by (simp add: finite_rows_def finalize_def)
qed

lemma file_lines_finite:
  "finite rows \<Longrightarrow>
   sorted (file_lines rows) \<and> distinct (file_lines rows) \<and> set (file_lines rows) = rows"
  by (simp add: file_lines_def)

subsection \<open>The order of the responses\<close>

lemma collect_reordered:
  assumes "mset ms' = mset ms" and "collect ms [] = Inr out"
  shows "\<exists>out'. collect ms' [] = Inr out' \<and> set out' = set out"
proof -
  have s: "set ms' = set ms" using assms(1) by (rule mset_eq_setD)
  have all: "\<forall>m \<in> set ms'. \<exists>xs. mapping_tuples m = Inr xs"
    using collect_Inr [OF assms(2)] s by simp
  then obtain out' where c: "collect ms' [] = Inr out'"
    using collect_total [of ms' "[]"] by blast
  show ?thesis using collect_Inr [OF c] collect_Inr [OF assms(2)] c s by simp
qed

lemma parse_reordered:
  assumes "entry_reordered e e'" and "parse_grch38_mappings e = Inr ts"
  shows "parse_grch38_mappings e' = Inr ts"
proof -
  from assms(2) obtain ms out where g: "get_mappings e = Inr ms"
    and c: "collect ms [] = Inr out" and ts: "ts = sorted_list_of_set (set out)"
    by (rule parse_collect)
  have "\<exists>ms'. get_mappings e' = Inr ms' \<and> mset ms' = mset ms"
    using assms(1) g
    by (cases "mappings_key e"; cases "mappings_key e'")
      (auto simp: entry_reordered_def get_mappings_def)
  then obtain ms' where g': "get_mappings e' = Inr ms'" and m: "mset ms' = mset ms" by blast
  obtain out' where "collect ms' [] = Inr out'" and "set out' = set out"
    using collect_reordered [OF m c] by blast
  then show ?thesis using g' by (simp add: parse_grch38_mappings_def ts)
qed

lemma entry_reordered_tests:
  "entry_reordered e e' \<Longrightarrow> entry_falsy e' = entry_falsy e \<and> error_key e' = error_key e"
  by (cases "mappings_key e"; cases "mappings_key e'")
    (auto simp: entry_reordered_def entry_falsy_def)

lemma mapping_result_reordered:
  assumes "body_reordered data data'" and "mapping_result data rs_id = Inr ms"
  shows "mapping_result data' rs_id = Inr ms"
proof -
  have rel: "rel_option entry_reordered (data rs_id) (data' rs_id)"
    using assms(1) by (simp add: body_reordered_def)
  show ?thesis
  proof (cases "data rs_id")
    case None
    then show ?thesis using rel assms(2) by (cases "data' rs_id") (auto simp: mapping_result_def)
  next
    case (Some e)
    then obtain e' where e': "data' rs_id = Some e'" and r: "entry_reordered e e'"
      using rel by (cases "data' rs_id") auto
    show ?thesis
      using assms(2) Some e' entry_reordered_tests [OF r] parse_reordered [OF r]
      by (auto simp: mapping_result_def split: if_splits)
  qed
qed

lemma process_rsid_reordered:
  assumes "body_reordered data data'" and "process_rsid data rs_id st = Inr st'"
  shows "process_rsid data' rs_id st = Inr st'"
proof -
  from assms(2) obtain ms where r: "mapping_result data rs_id = Inr ms"
    by (rule process_rsid_result)
  have "mapping_result data' rs_id = mapping_result data rs_id"
    using mapping_result_reordered [OF assms(1) r] r by simp
  then have "process_rsid data' rs_id st = process_rsid data rs_id st"
    by (rule process_rsid_same_result)
  then show ?thesis using assms(2) by simp
qed

lemma process_batch_reordered:
  "body_reordered data data' \<Longrightarrow> process_batch data b st = Inr st' \<Longrightarrow>
   process_batch data' b st = Inr st'"
proof (induction b arbitrary: st)
  case Nil
  then show ?case by simp
next
  case (Cons rs_id b)
  from Cons.prems(2) obtain st1 where one: "process_rsid data rs_id st = Inr st1"
    and more: "process_batch data b st1 = Inr st'"
    by (auto split: sum.splits)
  show ?case
    using process_rsid_reordered [OF Cons.prems(1) one] Cons.IH [OF Cons.prems(1) more] by simp
qed

lemma post_loop_reordered:
  "list_all2 outcome_reordered w w' \<Longrightarrow>
   post_loop ids max_retries attempt w tr = (Returned data, w1, tr1) \<Longrightarrow>
   \<exists>data' w1'. post_loop ids max_retries attempt w' tr = (Returned data', w1', tr1)
      \<and> body_reordered data data' \<and> list_all2 outcome_reordered w1 w1'"
proof (induction w arbitrary: w' attempt tr)
  case Nil
  then show ?case by simp
next
  case (Cons oc w)
  from Cons.prems(1) obtain oc' w2 where w': "w' = oc' # w2"
    and o: "outcome_reordered oc oc'" and rest: "list_all2 outcome_reordered w w2"
    by (cases w') auto
  note run = Cons.prems(2)
  show ?case
  proof (cases oc)
    case NetworkFailure
    then have oc': "oc' = NetworkFailure" using o by (cases oc') auto
    show ?thesis
    proof (cases "max_retries \<le> int attempt")
      case True
      then show ?thesis using run NetworkFailure by simp
    next
      case False
      show ?thesis
      proof (cases "backoff_sleep (attempt + 1) None")
        case (Inl e)
        then show ?thesis using run NetworkFailure False by simp
      next
        case (Inr slept)
        have "post_loop ids max_retries (attempt + 1) w (tr @ [Post ids, Sleep slept]) =
              (Returned data, w1, tr1)"
          using run NetworkFailure False Inr by simp
        from Cons.IH [OF rest this] show ?thesis
          unfolding w' oc' using False Inr by simp
      qed
    qed
  next
    case (Response status_code ra body)
    then obtain body' where oc': "oc' = Response status_code ra body'"
      and b: "body_reordered body body'"
      using o by (cases oc') auto
    consider (ok) "status_code = 200"
      | (retry) "status_code \<noteq> 200" "status_code \<in> set [429, 500, 502, 503, 504]"
      | (other) "status_code \<noteq> 200" "status_code \<notin> set [429, 500, 502, 503, 504]"
      by blast
    then show ?thesis
    proof cases
      case ok
      then have "data = body" "w1 = w" "tr1 = tr @ [Post ids]"
        using run Response by simp_all
      then show ?thesis unfolding w' oc' using ok b rest by simp
    next
      case retry
      show ?thesis
      proof (cases "if max_retries \<le> int attempt then raise_for_status status_code else None")
        case (Some e)
        then show ?thesis using run Response retry by simp
      next
        case None
        show ?thesis
        proof (cases "retry_after_arg ra")
          case (Inl e)
          then show ?thesis using run Response retry None by simp
        next
          case arg: (Inr arg)
          show ?thesis
          proof (cases "backoff_sleep (attempt + 1) arg")
            case (Inl e)
            then show ?thesis using run Response retry None arg by simp
          next
            case (Inr slept)
            have "post_loop ids max_retries (attempt + 1) w (tr @ [Post ids, Sleep slept]) =
                  (Returned data, w1, tr1)"
              using run Response retry None arg Inr by simp
            from Cons.IH [OF rest this] show ?thesis
              unfolding w' oc' using retry None arg Inr by simp
          qed
        qed
      qed
    next
      case other
      show ?thesis
      proof (cases "raise_for_status status_code")
        case (Some e)
        then show ?thesis using run Response other by simp
      next
        case None
        have "post_loop ids max_retries attempt w (tr @ [Post ids]) = (Returned data, w1, tr1)"
          using run Response other None by simp
        from Cons.IH [OF rest this] show ?thesis
          unfolding w' oc' using other None by simp
      qed
    qed
  qed
qed

lemma batch_loop_reordered:
  "list_all2 outcome_reordered w w' \<Longrightarrow>
   batch_loop bs st w tr = (Returned st', w1, tr1) \<Longrightarrow>
   \<exists>w1'. batch_loop bs st w' tr = (Returned st', w1', tr1)"
proof (induction bs arbitrary: st w w' tr)
  case Nil
  then show ?case by simp
next
  case (Cons b bs)
  from Cons.prems(2) obtain data w2 tr2 st2 where
    call: "post_variation_batch b default_max_retries w tr = (Returned data, w2, tr2)"
    and p: "process_batch data b st = Inr st2"
    and rec: "batch_loop bs st2 w2 (tr2 @ [Sleep (1 / 10)]) = (Returned st', w1, tr1)"
    by (rule batch_loop_step)
  from call obtain data' w2' where
    call': "post_variation_batch b default_max_retries w' tr = (Returned data', w2', tr2)"
    and b: "body_reordered data data'" and rest: "list_all2 outcome_reordered w2 w2'"
    using post_loop_reordered [OF Cons.prems(1)] unfolding post_variation_batch_def by blast
  have p': "process_batch data' b st = Inr st2" using process_batch_reordered [OF b p] .
  from Cons.IH [OF rest rec] obtain w1' where
    "batch_loop bs st2 w2' (tr2 @ [Sleep (1 / 10)]) = (Returned st', w1', tr1)" by blast
  then show ?case using call' p' by simp
qed

lemma main_reordered:
  assumes "list_all2 outcome_reordered w w'" and "main f n w = (Returned (st, files), tr)"
  shows "main f n w' = (Returned (st, files), tr)"
proof -
  from assms(2) obtain bs st0 w1 where c: "chunks (read_rsids f) n = Inr bs"
    and b: "batch_loop bs init_state w [] = (Returned st0, w1, tr)"
    and st: "st = finalize (read_rsids f) st0" and fl: "files = write_files st"
    by (rule main_complete)
  from assms(2) have ne: "read_rsids f \<noteq> []" by (auto simp: main_def Let_def split: if_splits)
  from batch_loop_reordered [OF assms(1) b] obtain w1' where
    "batch_loop bs init_state w' [] = (Returned st0, w1', tr)" by blast
  then show ?thesis using c ne st fl by (simp add: main_def Let_def)
qed

lemma file_lines_unique:
  assumes "finite rows" and "sorted ls" and "distinct ls" and "set ls = rows"
  shows "ls = file_lines rows"
  using assms file_lines_finite [OF assms(1)] sorted_distinct_set_unique [of ls "file_lines rows"]
  by simp

lemma main_files:
  assumes "main f n w = (Returned (st, files), tr)"
  shows "files = write_files st"
  using assms by (rule main_complete)

lemma sample_ids_file:
  "file_lines {''7:117559590:A:G'', ''7:117559590:A:T''} = [''7:117559590:A:G'', ''7:117559590:A:T'']"
  unfolding file_lines_def by code_simp

lemma sample_missing_file: "file_lines {''rs2''} = [''rs2'']"
  by (simp add: file_lines_def)

lemma sample_reordered:
  "list_all2 outcome_reordered
     [Response 200 NoHeader sample_data, Response 200 NoHeader no_data]
     [Response 200 NoHeader sample_data_reordered, Response 200 NoHeader no_data]"
  by (simp add: body_reordered_def entry_reordered_def sample_data_def sample_data_reordered_def
      sample_entry_def sample_entry_reordered_def no_data_def)

text \<open>
  C8. The model is a function of the input lines, the batch size and the responses, so
  two runs on the same input and responses write the same files. Each of the five files
  of a complete run is the rows of its set, each followed by a newline, in the one order
  that is sorted and without repetition: no file has a repeated line. A run on the same
  responses with the mappings of their entries in another order (the members of a response
  object have no order in the model) ends in the same state, with the same files and the
  same trace. Processing an identifier a second time with the same response changes no
  state.
\<close>

theorem output_deterministic_deduplicated:
  assumes "main f n w = (Returned (st, files), tr)"
  shows "rsid_to_coord_tsv files =
           concat (map (\<lambda>row. row @ [newline]) (file_lines (coord_rows st)))
    \<and> ids_to_extract_txt files = concat (map (\<lambda>row. row @ [newline]) (file_lines (id_rows st)))
    \<and> rsid_range files = concat (map (\<lambda>row. row @ [newline]) (file_lines (range_rows st)))
    \<and> missing_rsids_txt files = concat (map (\<lambda>row. row @ [newline]) (file_lines (missing st)))
    \<and> ambiguous_rsids_tsv files =
          concat (map (\<lambda>row. row @ [newline]) (file_lines (ambig_rows st)))
    \<and> (\<forall>rows \<in> {coord_rows st, id_rows st, range_rows st, missing st, ambig_rows st}.
         sorted (file_lines rows) \<and> distinct (file_lines rows) \<and> set (file_lines rows) = rows
         \<and> (\<forall>ls. sorted ls \<and> distinct ls \<and> set ls = rows \<longrightarrow> ls = file_lines rows))
    \<and> (list_all2 outcome_reordered w w' \<longrightarrow> main f n w' = (Returned (st, files), tr))
    \<and> (process_rsid data rs_id st0 = Inr st1 \<longrightarrow> process_rsid data rs_id st1 = Inr st1)"
proof -
  have f: "files = write_files st" using assms by (rule main_files)
  have fin: "finite_rows st" using assms by (rule main_finite)
  have content: "rsid_to_coord_tsv files =
           concat (map (\<lambda>row. row @ [newline]) (file_lines (coord_rows st)))
    \<and> ids_to_extract_txt files = concat (map (\<lambda>row. row @ [newline]) (file_lines (id_rows st)))
    \<and> rsid_range files = concat (map (\<lambda>row. row @ [newline]) (file_lines (range_rows st)))
    \<and> missing_rsids_txt files = concat (map (\<lambda>row. row @ [newline]) (file_lines (missing st)))
    \<and> ambiguous_rsids_tsv files =
          concat (map (\<lambda>row. row @ [newline]) (file_lines (ambig_rows st)))"
    unfolding f by (simp add: write_files_def write_rows_def)
  have lines: "\<forall>rows \<in> {coord_rows st, id_rows st, range_rows st, missing st, ambig_rows st}.
         sorted (file_lines rows) \<and> distinct (file_lines rows) \<and> set (file_lines rows) = rows
         \<and> (\<forall>ls. sorted ls \<and> distinct ls \<and> set ls = rows \<longrightarrow> ls = file_lines rows)"
  proof
    fix rows
    assume "rows \<in> {coord_rows st, id_rows st, range_rows st, missing st, ambig_rows st}"
    then have "finite rows" using fin by (auto simp: finite_rows_def)
    then show "sorted (file_lines rows) \<and> distinct (file_lines rows) \<and> set (file_lines rows) = rows
         \<and> (\<forall>ls. sorted ls \<and> distinct ls \<and> set ls = rows \<longrightarrow> ls = file_lines rows)"
      using file_lines_finite [of rows] file_lines_unique [of rows] by blast
  qed
  have order: "list_all2 outcome_reordered w w' \<longrightarrow> main f n w' = (Returned (st, files), tr)"
    using main_reordered [OF _ assms] by blast
  have idem: "process_rsid data rs_id st0 = Inr st1 \<longrightarrow> process_rsid data rs_id st1 = Inr st1"
    using process_rsid_idem by blast
  show ?thesis using content lines order idem by blast
qed

theorem output_deterministic_deduplicated_witness:
  "main [''rs1'', ''2''] 1 [Response 200 NoHeader sample_data, Response 200 NoHeader no_data] =
     (Returned (sample_run_state, write_files sample_run_state),
      [Post [''rs1''], Sleep (1 / 10), Post [''rs2''], Sleep (1 / 10)])
   \<and> ids_to_extract_txt (write_files sample_run_state) =
       ''7:117559590:A:G'' @ [newline] @ ''7:117559590:A:T'' @ [newline]
   \<and> missing_rsids_txt (write_files sample_run_state) = ''rs2'' @ [newline]
   \<and> sorted (file_lines (id_rows sample_run_state))
   \<and> distinct (file_lines (id_rows sample_run_state))
   \<and> list_all2 outcome_reordered
        [Response 200 NoHeader sample_data, Response 200 NoHeader no_data]
        [Response 200 NoHeader sample_data_reordered, Response 200 NoHeader no_data]
   \<and> main [''rs1'', ''2''] 1
        [Response 200 NoHeader sample_data_reordered, Response 200 NoHeader no_data] =
     (Returned (sample_run_state, write_files sample_run_state),
      [Post [''rs1''], Sleep (1 / 10), Post [''rs2''], Sleep (1 / 10)])
   \<and> process_rsid sample_data ''rs1'' init_state = Inr (sample_run_state\<lparr>missing := {}\<rparr>)
   \<and> process_rsid sample_data ''rs1'' (sample_run_state\<lparr>missing := {}\<rparr>) =
       Inr (sample_run_state\<lparr>missing := {}\<rparr>)"
proof -
  note inst = output_deterministic_deduplicated
      [OF sample_main,
        where w' = "[Response 200 NoHeader sample_data_reordered, Response 200 NoHeader no_data]"
        and data = sample_data and rs_id = "''rs1''" and ?st0.0 = init_state
        and ?st1.0 = "sample_run_state\<lparr>missing := {}\<rparr>"]
  have ids: "id_rows sample_run_state = {''7:117559590:A:G'', ''7:117559590:A:T''}"
    and mis: "missing sample_run_state = {''rs2''}"
    by (simp_all add: sample_run_state_def)
  have a: "ids_to_extract_txt (write_files sample_run_state) =
       ''7:117559590:A:G'' @ [newline] @ ''7:117559590:A:T'' @ [newline]"
    using inst by (simp add: ids sample_ids_file)
  have b: "missing_rsids_txt (write_files sample_run_state) = ''rs2'' @ [newline]"
    using inst by (simp add: mis sample_missing_file)
  have c: "sorted (file_lines (id_rows sample_run_state))
      \<and> distinct (file_lines (id_rows sample_run_state))"
    using inst by simp
  have d: "main [''rs1'', ''2''] 1
        [Response 200 NoHeader sample_data_reordered, Response 200 NoHeader no_data] =
     (Returned (sample_run_state, write_files sample_run_state),
      [Post [''rs1''], Sleep (1 / 10), Post [''rs2''], Sleep (1 / 10)])"
    using inst sample_reordered by blast
  have e: "process_rsid sample_data ''rs1'' (sample_run_state\<lparr>missing := {}\<rparr>) =
       Inr (sample_run_state\<lparr>missing := {}\<rparr>)"
    using inst sample_first by blast
  show ?thesis using sample_main a b c d e sample_reordered sample_first by simp
qed

end
